theory Spec2Isabelle
  imports Main "HOL-Library.Word" "HOL-Library.Monad_Syntax"
begin

unbundle bit_operations_syntax

section \<open>JavaScript strings and values\<close>

text \<open>
  A JavaScript string is a sequence of UTF-16 code units. Offsets are JavaScript numbers;
  the model covers the integers, negative ones included.
\<close>

type_synonym jsstring = "16 word list"

text \<open>A string literal of the source whose characters are all ASCII.\<close>

definition js :: "string \<Rightarrow> jsstring" where
  "js s = map (\<lambda>c. of_nat (of_char c)) s"

text \<open>
  \<^verbatim>\<open>String.prototype.slice(start, end)\<close>: a negative index counts from the end of the
  string, both indices are clamped to the string, and an empty range gives the empty string.
\<close>

definition slice :: "jsstring \<Rightarrow> int \<Rightarrow> int \<Rightarrow> jsstring" where
  "slice s start fin =
     (let len = int (length s);
          from = (if start < 0 then max (len + start) 0 else min start len);
          to = (if fin < 0 then max (len + fin) 0 else min fin len)
      in take (nat (to - from)) (drop (nat from) s))"

text \<open>
  \<^verbatim>\<open>String.prototype.codePointAt(pos)\<close>: \<open>None\<close> is \<^verbatim>\<open>undefined\<close> (no code unit at
  \<open>pos\<close>); a leading surrogate followed by a trailing surrogate is one code point above
  \<open>0xFFFF\<close>.
\<close>

definition codePointAt :: "jsstring \<Rightarrow> int \<Rightarrow> int option" where
  "codePointAt s pos =
     (if pos < 0 \<or> int (length s) \<le> pos then None
      else let first = s ! nat pos in
        if first < 0xD800 \<or> 0xDBFF < first \<or> pos + 1 = int (length s) then Some (uint first)
        else let second = s ! nat (pos + 1) in
          if second < 0xDC00 \<or> 0xDFFF < second then Some (uint first)
          else Some ((uint first - 0xD800) * 0x400 + (uint second - 0xDC00) + 0x10000))"

text \<open>
  \<^verbatim>\<open>String.fromCodePoint(cp)\<close> for one code point; \<open>None\<close> is the RangeError thrown for a
  number that is not a code point.
\<close>

definition fromCodePoint :: "int \<Rightarrow> jsstring option" where
  "fromCodePoint cp =
     (if cp < 0 \<or> 0x10FFFF < cp then None
      else if cp \<le> 0xFFFF then Some [word_of_int cp]
      else Some [word_of_int ((cp - 0x10000) div 0x400 + 0xD800),
                 word_of_int ((cp - 0x10000) mod 0x400 + 0xDC00)])"

text \<open>The values parsers produce, as JavaScript has them at run time.\<close>

datatype jsval = Undefined | Null | Str jsstring | Num int | Arr "jsval list"

section \<open>Parse results and parsers (parser-combinators.ts)\<close>

datatype ParseResult =
    success: Success (offset: int) (val: jsval)
  | Failure (offset: int) (expected: "jsstring list") (fatal: bool)

text \<open>
  A parser is a function of the input and the offset. \<open>None\<close> stands for a call that
  does not return a result: a loop that runs forever, or a TypeError. The callbacks a
  caller passes (\<open>map\<close>'s function, \<open>filter\<close>'s predicate, \<open>then\<close>'s join,
  \<open>codepoint\<close>'s predicate) are functions that return.
\<close>

type_synonym Parser = "jsstring \<Rightarrow> int \<Rightarrow> ParseResult option"

abbreviation okWithValue :: "int \<Rightarrow> jsval \<Rightarrow> ParseResult" where
  "okWithValue off v \<equiv> Success off v"

abbreviation ok :: "int \<Rightarrow> ParseResult" where
  "ok off \<equiv> okWithValue off Undefined"

text \<open>\<^verbatim>\<open>error(offset, expected, fatal = false)\<close>; the default is written out at each call.\<close>

abbreviation error :: "int \<Rightarrow> jsstring list \<Rightarrow> bool \<Rightarrow> ParseResult" where
  "error off expd ftl \<equiv> Failure off expd ftl"

subsection \<open>Primitive matchers\<close>

definition token :: "jsstring \<Rightarrow> Parser" where
  "token tok = (\<lambda>input offset.
     let offsetAfter = offset + int (length tok) in
     if slice input offset offsetAfter = tok then Some (okWithValue offsetAfter (Str tok))
     else Some (error offset [tok] False))"

definition lengthFromCodePoint :: "int \<Rightarrow> int" where
  "lengthFromCodePoint cp = (if cp > 0xffff then 2 else 1)"

definition codepoint :: "(int \<Rightarrow> bool) \<Rightarrow> jsstring list \<Rightarrow> Parser" where
  "codepoint isMatch expd = (\<lambda>input offset.
     case codePointAt input offset of
       None \<Rightarrow> Some (error offset expd False)
     | Some cp \<Rightarrow>
         if \<not> isMatch cp then Some (error offset expd False)
         else Some (ok (offset + lengthFromCodePoint cp)))"

text \<open>The \<^verbatim>\<open>while (true)\<close> loop of \<open>codepoints\<close>: the offset at which it breaks.\<close>

function codepoints_loop :: "(int \<Rightarrow> bool) \<Rightarrow> jsstring \<Rightarrow> int \<Rightarrow> int" where
  "codepoints_loop isMatch input offs =
     (case codePointAt input offs of
        None \<Rightarrow> offs
      | Some cp \<Rightarrow>
          if \<not> isMatch cp then offs
          else codepoints_loop isMatch input (offs + (if cp > 0xffff then 2 else 1)))"
  by pat_completeness auto
termination
  by (relation "measure (\<lambda>(isMatch, input, offs). nat (int (length input) - offs))")
     (auto simp: codePointAt_def split: if_splits)

declare codepoints_loop.simps [simp del]

definition codepoints :: "(int \<Rightarrow> bool) \<Rightarrow> jsstring list option \<Rightarrow> Parser" where
  "codepoints isMatch expd = (\<lambda>input startOffset.
     let offset = codepoints_loop isMatch input startOffset in
     case expd of
       Some e \<Rightarrow> if offset = startOffset then Some (error offset e False) else Some (ok offset)
     | None \<Rightarrow> Some (ok offset))"

text \<open>
  \<open>range\<close> builds its default description with \<^verbatim>\<open>String.fromCodePoint\<close> when no
  \<open>expected\<close> is given; \<open>None\<close> is the RangeError of that call, thrown while the parser
  is built.
\<close>

definition range_p :: "int \<Rightarrow> int \<Rightarrow> jsstring list option \<Rightarrow> Parser option" where
  "range_p firstCodePoint lastCodePoint expd =
     (case expd of
        Some e \<Rightarrow> Some (codepoint (\<lambda>cp. firstCodePoint \<le> cp \<and> cp \<le> lastCodePoint) e)
      | None \<Rightarrow>
          (case (fromCodePoint firstCodePoint, fromCodePoint lastCodePoint) of
             (Some a, Some b) \<Rightarrow>
               Some (codepoint (\<lambda>cp. firstCodePoint \<le> cp \<and> cp \<le> lastCodePoint)
                       [a @ js ''-'' @ b])
           | _ \<Rightarrow> None))"

function skipChars_loop :: "jsstring \<Rightarrow> int \<Rightarrow> int \<Rightarrow> ParseResult" where
  "skipChars_loop input offs i =
     (if i > 0 then
        (case codePointAt input offs of
           None \<Rightarrow> error offs [js ''any character''] False
         | Some cp \<Rightarrow> skipChars_loop input (offs + lengthFromCodePoint cp) (i - 1))
      else ok offs)"
  by pat_completeness auto
termination
  by (relation "measure (\<lambda>(input, offs, i). nat i)") auto

declare skipChars_loop.simps [simp del]

definition skipChars :: "int \<Rightarrow> Parser" where
  "skipChars nCodepoints = (\<lambda>input offset. Some (skipChars_loop input offset nCodepoints))"

definition start :: Parser where
  "start = (\<lambda>input offset.
     if offset = 0 then Some (ok offset) else Some (error offset [js ''start of input''] False))"

definition end_p :: Parser where
  "end_p = (\<lambda>input offset.
     if int (length input) = offset then Some (ok offset)
     else Some (error offset [js ''end of input''] False))"

subsection \<open>Combinators\<close>

definition map_p :: "Parser \<Rightarrow> (jsval \<Rightarrow> jsval) \<Rightarrow> Parser" where
  "map_p parser f = (\<lambda>input offset. do {
     res \<leftarrow> parser input offset;
     case res of
       Failure _ _ _ \<Rightarrow> Some res
     | Success roff v \<Rightarrow> Some (okWithValue roff (f v)) })"

definition consume :: "Parser \<Rightarrow> Parser" where
  "consume parser = map_p parser (\<lambda>_. Undefined)"

text \<open>\<open>fatal\<close> is an optional argument: left out, \<open>error\<close>'s default \<open>false\<close> applies.\<close>

definition filter_p ::
  "Parser \<Rightarrow> (jsval \<Rightarrow> bool) \<Rightarrow> jsstring list \<Rightarrow> bool option \<Rightarrow> Parser" where
  "filter_p parser pred expd ftl = (\<lambda>input offset. do {
     res \<leftarrow> parser input offset;
     case res of
       Failure _ _ _ \<Rightarrow> Some res
     | Success _ v \<Rightarrow>
         if \<not> pred v then Some (error offset expd (case ftl of None \<Rightarrow> False | Some b \<Rightarrow> b))
         else Some res })"

text \<open>
  \<open>or\<close>. The parser it returns reads the captured parameter \<open>expected\<close> in its loop and
  assigns to it after the loop, so the variable is state that outlives a call. \<open>or_call\<close>
  takes the value the variable holds when the parser is called and returns, with the
  result, the value it holds afterwards; \<open>or_p parsers expected\<close> is the parser at a
  moment when the variable holds \<open>expected\<close> (for a parser that was just built: the
  argument given to \<open>or\<close>, \<open>None\<close> when it was left out).

  \<open>lastError\<close> holds the fields of the failure object it points to. The loop ends with
  \<open>Inl res\<close> when the body returns \<open>res\<close>, and with \<open>Inr lastError\<close> when it runs
  through all parsers.
\<close>

type_synonym failure = "int \<times> jsstring list \<times> bool"

fun or_loop ::
  "Parser list \<Rightarrow> jsstring list option \<Rightarrow> jsstring \<Rightarrow> int \<Rightarrow> failure option
     \<Rightarrow> (ParseResult + failure option) option" where
  "or_loop [] expd input offs lastError = Some (Inr lastError)"
| "or_loop (parser # parsers) expd input offs lastError = do {
     res \<leftarrow> parser input offs;
     case res of
       Success _ _ \<Rightarrow> Some (Inl res)
     | Failure roff rexp rfatal \<Rightarrow>
         let lastError' =
           (case lastError of
              None \<Rightarrow> Some (roff, rexp, rfatal)
            | Some (loff, lexp, lfatal) \<Rightarrow>
                if roff > loff then Some (roff, rexp, rfatal)
                else if roff = loff \<and> expd = None then Some (loff, lexp @ rexp, lfatal)
                else lastError)
         in if rfatal then Some (Inl res)
            else or_loop parsers expd input offs lastError' }"

definition or_call ::
  "Parser list \<Rightarrow> jsstring list option \<Rightarrow> jsstring \<Rightarrow> int
     \<Rightarrow> (ParseResult \<times> jsstring list option) option" where
  "or_call parsers expd input offs = do {
     r \<leftarrow> or_loop parsers expd input offs None;
     case r of
       Inl res \<Rightarrow> Some (res, expd)
     | Inr lastError \<Rightarrow>
         let expd' = (case expd of
                       Some e \<Rightarrow> e
                     | None \<Rightarrow> (case lastError of Some (_, lexp, _) \<Rightarrow> lexp | None \<Rightarrow> []))
         in Some (case lastError of
                    Some (loff, _, lfatal) \<Rightarrow> Failure loff expd' lfatal
                  | None \<Rightarrow> error offs expd' False,
                  Some expd') }"

definition or_p :: "Parser list \<Rightarrow> jsstring list option \<Rightarrow> Parser" where
  "or_p parsers expd = (\<lambda>input offset. map_option fst (or_call parsers expd input offset))"

definition optional :: "Parser \<Rightarrow> Parser" where
  "optional parser = (\<lambda>input offset. do {
     res \<leftarrow> parser input offset;
     case res of
       Failure _ _ f \<Rightarrow> if \<not> f then Some (okWithValue offset Null) else Some res
     | Success _ _ \<Rightarrow> Some res })"

text \<open>
  The loop of \<open>star\<close>, with the array \<open>ts\<close> and \<open>nextOffset\<close> as it goes round. Nothing
  in the loop bounds the number of rounds, so not returning is a value of the model.
\<close>

partial_function (option) star_loop ::
  "Parser \<Rightarrow> jsstring \<Rightarrow> jsval list \<Rightarrow> int \<Rightarrow> ParseResult option" where
  "star_loop parser input ts nextOffset = do {
     res \<leftarrow> parser input nextOffset;
     case res of
       Failure _ _ f \<Rightarrow> if f then Some res else Some (okWithValue nextOffset (Arr ts))
     | Success roff v \<Rightarrow>
         if roff = nextOffset then Some (okWithValue nextOffset (Arr (ts @ [v])))
         else star_loop parser input (ts @ [v]) roff }"

declare star_loop.simps [code]

definition star :: "Parser \<Rightarrow> Parser" where
  "star parser = (\<lambda>input offset. star_loop parser input [] offset)"

partial_function (option) starConsumed_loop ::
  "Parser \<Rightarrow> jsstring \<Rightarrow> int \<Rightarrow> ParseResult option" where
  "starConsumed_loop parser input nextOffset = do {
     res \<leftarrow> parser input nextOffset;
     case res of
       Failure _ _ f \<Rightarrow> if f then Some res else Some (ok nextOffset)
     | Success roff _ \<Rightarrow>
         if roff = nextOffset then Some (ok nextOffset)
         else starConsumed_loop parser input roff }"

declare starConsumed_loop.simps [code]

definition starConsumed :: "Parser \<Rightarrow> Parser" where
  "starConsumed parser = (\<lambda>input offset. starConsumed_loop parser input offset)"

text \<open>
  \<open>filterUndefined\<close> is \<^verbatim>\<open>map(parser, (vs) => vs.filter((v) => v !== undefined))\<close>. On a
  value that is not an array, \<^verbatim>\<open>vs.filter\<close> throws a TypeError.
\<close>

definition filterUndefined :: "Parser \<Rightarrow> Parser" where
  "filterUndefined parser = (\<lambda>input offset. do {
     res \<leftarrow> parser input offset;
     case res of
       Failure _ _ _ \<Rightarrow> Some res
     | Success roff (Arr vs) \<Rightarrow> Some (okWithValue roff (Arr (filter (\<lambda>v. v \<noteq> Undefined) vs)))
     | Success _ _ \<Rightarrow> None })"

definition then_p :: "Parser \<Rightarrow> Parser \<Rightarrow> (jsval \<Rightarrow> jsval \<Rightarrow> jsval) \<Rightarrow> Parser" where
  "then_p parser1 parser2 join = (\<lambda>input offset. do {
     r1 \<leftarrow> parser1 input offset;
     case r1 of
       Failure _ _ _ \<Rightarrow> Some r1
     | Success off1 v1 \<Rightarrow> do {
         r2 \<leftarrow> parser2 input off1;
         case r2 of
           Failure _ _ _ \<Rightarrow> Some r2
         | Success off2 v2 \<Rightarrow> Some (okWithValue off2 (join v1 v2)) } })"

text \<open>
  \<^verbatim>\<open>[v].concat(vs)\<close>: \<open>concat\<close> appends the elements of an array argument, and any other
  argument itself.
\<close>

definition prepend :: "jsval \<Rightarrow> jsval \<Rightarrow> jsval" where
  "prepend v vs = (case vs of Arr l \<Rightarrow> Arr (v # l) | _ \<Rightarrow> Arr [v, vs])"

definition plus_p :: "Parser \<Rightarrow> Parser" where
  "plus_p parser = then_p parser (star parser) prepend"

definition first :: "jsval \<Rightarrow> jsval \<Rightarrow> jsval" where
  "first x y = x"

definition second :: "jsval \<Rightarrow> jsval \<Rightarrow> jsval" where
  "second x y = y"

definition plusConsumed :: "Parser \<Rightarrow> Parser" where
  "plusConsumed parser = then_p parser (starConsumed parser) second"

definition preceded :: "Parser \<Rightarrow> Parser \<Rightarrow> Parser" where
  "preceded before parser = then_p before parser second"

definition followed :: "Parser \<Rightarrow> Parser \<Rightarrow> Parser" where
  "followed parser after = then_p parser after first"

definition cut_p :: "Parser \<Rightarrow> Parser" where
  "cut_p parser = (\<lambda>input offset. do {
     res \<leftarrow> parser input offset;
     case res of
       Failure roff rexp _ \<Rightarrow> Some (error roff rexp True)
     | Success _ _ \<Rightarrow> Some res })"

definition delimited :: "Parser \<Rightarrow> Parser \<Rightarrow> Parser \<Rightarrow> bool \<Rightarrow> Parser" where
  "delimited opn inner close cutAfterOpen =
     (let rest = (if cutAfterOpen then cut_p (followed inner close) else followed inner close)
      in preceded opn rest)"

definition recognize :: "Parser \<Rightarrow> Parser" where
  "recognize parser = (\<lambda>input offset. do {
     res \<leftarrow> parser input offset;
     case res of
       Failure _ _ _ \<Rightarrow> Some res
     | Success roff _ \<Rightarrow> Some (okWithValue roff (Str (slice input offset roff))) })"

definition peek :: "Parser \<Rightarrow> Parser" where
  "peek parser = (\<lambda>input offset. do {
     res \<leftarrow> parser input offset;
     case res of
       Failure _ _ _ \<Rightarrow> Some res
     | Success _ v \<Rightarrow> Some (okWithValue offset v) })"

definition not_p :: "Parser \<Rightarrow> jsstring list \<Rightarrow> Parser" where
  "not_p parser expd = (\<lambda>input offset. do {
     res \<leftarrow> parser input offset;
     case res of
       Failure _ _ _ \<Rightarrow> Some (ok offset)
     | Success _ _ \<Rightarrow> Some (error offset expd False) })"

definition except :: "Parser \<Rightarrow> Parser \<Rightarrow> jsstring list \<Rightarrow> Parser" where
  "except match exc expd = preceded (not_p exc expd) match"

text \<open>
  \<open>dispatch\<close>: the mapping is an object keyed by code point, \<open>otherwise\<close> may be
  \<^verbatim>\<open>undefined\<close>; the defaults \<open>extraOffset = 0\<close> and \<open>expected = []\<close> are written at the
  call.
\<close>

definition dispatch ::
  "(int \<Rightarrow> Parser option) \<Rightarrow> Parser option \<Rightarrow> int \<Rightarrow> jsstring list \<Rightarrow> Parser" where
  "dispatch mapping otherwise extraOffset expd = (\<lambda>input offset.
     case codePointAt input (offset + extraOffset) of
       None \<Rightarrow> Some (error offset expd False)
     | Some cp \<Rightarrow>
         (case mapping cp of
            None \<Rightarrow>
              (case otherwise of
                 None \<Rightarrow> Some (error offset expd False)
               | Some other \<Rightarrow> other input offset)
          | Some parser \<Rightarrow> parser input offset))"

definition complete :: "Parser \<Rightarrow> Parser" where
  "complete parser = then_p parser end_p first"

section \<open>Streaming parsers (streaming.ts)\<close>

text \<open>
  A generator that is run to its end is the list of the values it yields, in order,
  and the value it returns: what \<open>collect\<close> gathers. \<open>None\<close> is a generator that does
  not finish.
\<close>

type_synonym StreamingParser = "jsstring \<Rightarrow> int \<Rightarrow> (jsval list \<times> ParseResult) option"

definition streaming :: "Parser \<Rightarrow> StreamingParser" where
  "streaming parser = (\<lambda>input offset. do {
     res \<leftarrow> parser input offset;
     case res of
       Success _ v \<Rightarrow> Some ([v], res)
     | Failure _ _ _ \<Rightarrow> Some ([], res) })"

definition streamingThen :: "StreamingParser \<Rightarrow> StreamingParser \<Rightarrow> StreamingParser" where
  "streamingThen parser1 parser2 = (\<lambda>input offset. do {
     (ys1, res1) \<leftarrow> parser1 input offset;
     case res1 of
       Failure _ _ _ \<Rightarrow> Some (ys1, res1)
     | Success off1 _ \<Rightarrow> do {
         (ys2, res2) \<leftarrow> parser2 input off1;
         Some (ys1 @ ys2, res2) } })"

definition streamingFilterUndefined :: "StreamingParser \<Rightarrow> StreamingParser" where
  "streamingFilterUndefined parser = (\<lambda>input offset. do {
     (ys, res) \<leftarrow> parser input offset;
     Some (filter (\<lambda>v. v \<noteq> Undefined) ys, res) })"

text \<open>The loop of \<open>streamingStar\<close>; \<open>yielded\<close> holds what it has yielded so far.\<close>

partial_function (option) streamingStar_loop ::
  "StreamingParser \<Rightarrow> jsstring \<Rightarrow> jsval list \<Rightarrow> int \<Rightarrow> (jsval list \<times> ParseResult) option"
  where
  "streamingStar_loop parser input yielded offs = do {
     (vals, result) \<leftarrow> parser input offs;
     case result of
       Failure _ _ f \<Rightarrow> if f then Some (yielded, result) else Some (yielded, ok offs)
     | Success roff _ \<Rightarrow>
         if offs = roff then Some (yielded @ vals, ok offs)
         else streamingStar_loop parser input (yielded @ vals) roff }"

declare streamingStar_loop.simps [code]

definition streamingStar :: "StreamingParser \<Rightarrow> StreamingParser" where
  "streamingStar parser = (\<lambda>input offset. streamingStar_loop parser input [] offset)"

definition streamingOptional :: "StreamingParser \<Rightarrow> StreamingParser" where
  "streamingOptional parser = (\<lambda>input offset. do {
     (vals, result) \<leftarrow> parser input offset;
     case result of
       Failure _ _ f \<Rightarrow> if f then Some ([], result) else Some ([], ok offset)
     | Success _ _ \<Rightarrow> Some (vals, result) })"

definition streamingComplete :: "StreamingParser \<Rightarrow> StreamingParser" where
  "streamingComplete parser = (\<lambda>input offset. do {
     (ys, res) \<leftarrow> parser input offset;
     case res of
       Failure _ _ _ \<Rightarrow> Some (ys, res)
     | Success roff _ \<Rightarrow> do { r \<leftarrow> end_p input roff; Some (ys, r) } })"

section \<open>The byte-oriented variant (utf8.ts)\<close>

text \<open>
  The input is an array of bytes. \<open>byteAt\<close> is \<^verbatim>\<open>input[offset]\<close>, \<open>None\<close> being
  \<^verbatim>\<open>undefined\<close>. The bitwise operators of JavaScript work on 32-bit integers; on bytes
  the values stay below \<open>2^22\<close>, where they agree with the operations on \<open>int\<close>.
\<close>

type_synonym bytes = "8 word list"

datatype jserror = Error string

definition getUtf8Length :: "int \<Rightarrow> int" where
  "getUtf8Length cp =
     (if cp \<le> 0x7f then 1 else if cp \<le> 0x7ff then 2 else if cp \<le> 0xffff then 3 else 4)"

definition byteAt :: "bytes \<Rightarrow> int \<Rightarrow> int option" where
  "byteAt input i = (if 0 \<le> i \<and> i < int (length input) then Some (uint (input ! nat i)) else None)"

text \<open>\<open>Inl\<close> is the exception thrown, \<open>Inr None\<close> the result \<^verbatim>\<open>undefined\<close>.\<close>

definition getUtf8Codepoint :: "bytes \<Rightarrow> int \<Rightarrow> jserror + int option" where
  "getUtf8Codepoint input offs =
     (let cp = (case byteAt input offs of None \<Rightarrow> 0 | Some b \<Rightarrow> b OR 0) in
      if cp AND 0x80 = 0 then Inr (Some cp)
      else case byteAt input (offs + 1) of
        None \<Rightarrow> Inr None
      | Some second_b \<Rightarrow>
          if cp AND 0xE0 = 0xC0 then Inr (Some (push_bit 6 (cp AND 0x1F) OR (second_b AND 0x3F)))
          else case byteAt input (offs + 2) of
            None \<Rightarrow> Inr None
          | Some third_b \<Rightarrow>
              if cp AND 0xF0 = 0xE0 then
                Inr (Some ((push_bit 12 (cp AND 0xF) OR push_bit 6 (second_b AND 0x3F))
                           OR (third_b AND 0x3F)))
              else case byteAt input (offs + 3) of
                None \<Rightarrow> Inr None
              | Some fourth_b \<Rightarrow>
                  if cp AND 0xF8 = 0xF0 then
                    Inr (Some (((push_bit 18 (cp AND 0xF) OR push_bit 12 (second_b AND 0x3F))
                               OR push_bit 6 (third_b AND 0x3F)) OR (fourth_b AND 0x3F)))
                  else Inl (Error ''invalid utf-8 character''))"

text \<open>
  A parser over bytes: \<open>Some (Inl e)\<close> is a call that throws \<open>e\<close>, \<open>None\<close> one that does
  not return.
\<close>

type_synonym Utf8Parser = "bytes \<Rightarrow> int \<Rightarrow> (jserror + ParseResult) option"

text \<open>
  \<open>tokenUtf8\<close> compares code point by code point: \<^verbatim>\<open>Array.from(token, ...)\<close> walks the
  token with the string iterator, which takes a surrogate pair as one code point. The
  loop ends with \<open>Inr None\<close> at a mismatch and with the offset reached otherwise.
\<close>

fun codePoints :: "jsstring \<Rightarrow> int list" where
  "codePoints [] = []"
| "codePoints [u] = [uint u]"
| "codePoints (u # w # rest) =
     (if 0xD800 \<le> u \<and> u \<le> 0xDBFF \<and> 0xDC00 \<le> w \<and> w \<le> 0xDFFF
      then ((uint u - 0xD800) * 0x400 + (uint w - 0xDC00) + 0x10000) # codePoints rest
      else uint u # codePoints (w # rest))"

fun tokenUtf8_loop :: "int list \<Rightarrow> bytes \<Rightarrow> int \<Rightarrow> jserror + int option" where
  "tokenUtf8_loop [] input offs = Inr (Some offs)"
| "tokenUtf8_loop (c # cs) input offs =
     (case getUtf8Codepoint input offs of
        Inl e \<Rightarrow> Inl e
      | Inr None \<Rightarrow> Inr None
      | Inr (Some cp) \<Rightarrow>
          if cp \<noteq> c then Inr None
          else tokenUtf8_loop cs input (offs + getUtf8Length cp))"

definition tokenUtf8 :: "jsstring \<Rightarrow> Utf8Parser" where
  "tokenUtf8 tok = (\<lambda>input initialOffset.
     case tokenUtf8_loop (codePoints tok) input initialOffset of
       Inl e \<Rightarrow> Some (Inl e)
     | Inr None \<Rightarrow> Some (Inr (error initialOffset [tok] False))
     | Inr (Some offs) \<Rightarrow> Some (Inr (okWithValue offs (Str tok))))"

definition codepointUtf8 :: "(int \<Rightarrow> bool) \<Rightarrow> jsstring list \<Rightarrow> Utf8Parser" where
  "codepointUtf8 isMatch expd = (\<lambda>input offset.
     case getUtf8Codepoint input offset of
       Inl e \<Rightarrow> Some (Inl e)
     | Inr None \<Rightarrow> Some (Inr (error offset expd False))
     | Inr (Some cp) \<Rightarrow>
         if \<not> isMatch cp then Some (Inr (error offset expd False))
         else Some (Inr (ok (offset + getUtf8Length cp))))"

text \<open>
  \<open>rangeUtf8\<close> is \<open>codepointUtf8\<close> with the test of the range; as in \<open>range\<close>, \<open>None\<close>
  is the RangeError of \<^verbatim>\<open>String.fromCodePoint\<close>, thrown while the parser is built.
\<close>

definition rangeUtf8 :: "int \<Rightarrow> int \<Rightarrow> jsstring list option \<Rightarrow> Utf8Parser option" where
  "rangeUtf8 firstCodePoint lastCodePoint expd =
     (case expd of
        Some e \<Rightarrow> Some (codepointUtf8 (\<lambda>cp. firstCodePoint \<le> cp \<and> cp \<le> lastCodePoint) e)
      | None \<Rightarrow>
          (case (fromCodePoint firstCodePoint, fromCodePoint lastCodePoint) of
             (Some a, Some b) \<Rightarrow>
               Some (codepointUtf8 (\<lambda>cp. firstCodePoint \<le> cp \<and> cp \<le> lastCodePoint)
                       [a @ js ''-'' @ b])
           | _ \<Rightarrow> None))"

text \<open>
  The loop of \<open>codepointsUtf8\<close>: the offset at which it breaks, or the exception of the
  decoder.
\<close>

partial_function (option) codepointsUtf8_loop ::
  "(int \<Rightarrow> bool) \<Rightarrow> bytes \<Rightarrow> int \<Rightarrow> (jserror + int) option" where
  "codepointsUtf8_loop isMatch input offs =
     (case getUtf8Codepoint input offs of
        Inl e \<Rightarrow> Some (Inl e)
      | Inr None \<Rightarrow> Some (Inr offs)
      | Inr (Some cp) \<Rightarrow>
          if \<not> isMatch cp then Some (Inr offs)
          else codepointsUtf8_loop isMatch input (offs + getUtf8Length cp))"

declare codepointsUtf8_loop.simps [code]

definition codepointsUtf8 :: "(int \<Rightarrow> bool) \<Rightarrow> jsstring list option \<Rightarrow> Utf8Parser" where
  "codepointsUtf8 isMatch expd = (\<lambda>input startOffset. do {
     r \<leftarrow> codepointsUtf8_loop isMatch input startOffset;
     case r of
       Inl e \<Rightarrow> Some (Inl e)
     | Inr offs \<Rightarrow>
         (case expd of
            Some e \<Rightarrow>
              if offs = startOffset then Some (Inr (error offs e False))
              else Some (Inr (ok offs))
          | None \<Rightarrow> Some (Inr (ok offs))) })"

function skipCharsUtf8_loop :: "bytes \<Rightarrow> int \<Rightarrow> int \<Rightarrow> jserror + ParseResult" where
  "skipCharsUtf8_loop input offs i =
     (if i > 0 then
        (case getUtf8Codepoint input offs of
           Inl e \<Rightarrow> Inl e
         | Inr None \<Rightarrow> Inr (error offs [js ''any character''] False)
         | Inr (Some cp) \<Rightarrow> skipCharsUtf8_loop input (offs + getUtf8Length cp) (i - 1))
      else Inr (ok offs))"
  by pat_completeness auto
termination
  by (relation "measure (\<lambda>(input, offs, i). nat i)") auto

declare skipCharsUtf8_loop.simps [simp del]

definition skipCharsUtf8 :: "int \<Rightarrow> Utf8Parser" where
  "skipCharsUtf8 nCodepoints =
     (\<lambda>input offset. Some (skipCharsUtf8_loop input offset nCodepoints))"

definition dispatchUtf8 ::
  "(int \<Rightarrow> Utf8Parser option) \<Rightarrow> Utf8Parser option \<Rightarrow> int \<Rightarrow> jsstring list \<Rightarrow> Utf8Parser"
  where
  "dispatchUtf8 mapping otherwise extraOffset expd = (\<lambda>input offset.
     case getUtf8Codepoint input (offset + extraOffset) of
       Inl e \<Rightarrow> Some (Inl e)
     | Inr None \<Rightarrow> Some (Inr (error offset expd False))
     | Inr (Some cp) \<Rightarrow>
         (case mapping cp of
            None \<Rightarrow>
              (case otherwise of
                 None \<Rightarrow> Some (Inr (error offset expd False))
               | Some other \<Rightarrow> other input offset)
          | Some parser \<Rightarrow> parser input offset))"

section \<open>Parsers built from the combinators\<close>

text \<open>
  \<open>filterUndefined\<close> takes a parser whose values are arrays (its parameter has the type
  \<^verbatim>\<open>Parser<(T | void)[]>\<close>).
\<close>

definition array_valued :: "Parser \<Rightarrow> bool" where
  "array_valued p \<longleftrightarrow> (\<forall>input offs off v. p input offs = Some (Success off v) \<longrightarrow> (\<exists>vs. v = Arr vs))"

text \<open>
  \<open>built c p\<close>: the parser \<open>p\<close> is built from the primitive matchers by the combinators
  of parser-combinators.ts. The three forms that mark a failure as fatal (\<open>cut\<close>,
  \<open>delimited\<close> with \<open>cutAfterOpen = true\<close>, \<open>filter\<close> with \<open>fatal = true\<close>) are
  allowed only when \<open>c\<close> holds, so \<open>built True\<close> is all of parser-combinators.ts and
  \<open>built False\<close> all of it but these three forms. An \<open>or\<close> may be in any state of its
  captured variable. The primitives of utf8.ts are parsers over bytes and not among these.
\<close>

inductive built :: "bool \<Rightarrow> Parser \<Rightarrow> bool" for c :: bool where
  b_token: "built c (token tok)"
| b_codepoint: "built c (codepoint isMatch expd)"
| b_codepoints: "built c (codepoints isMatch expdo)"
| b_range: "range_p firstCodePoint lastCodePoint expdo = Some p \<Longrightarrow> built c p"
| b_skipChars: "built c (skipChars nCodepoints)"
| b_start: "built c start"
| b_end: "built c end_p"
| b_map: "built c p \<Longrightarrow> built c (map_p p f)"
| b_consume: "built c p \<Longrightarrow> built c (consume p)"
| b_filter: "built c p \<Longrightarrow> (ftl = Some True \<longrightarrow> c) \<Longrightarrow> built c (filter_p p pred expd ftl)"
| b_or: "(\<forall>p\<in>set ps. built c p) \<Longrightarrow> built c (or_p ps expdo)"
| b_optional: "built c p \<Longrightarrow> built c (optional p)"
| b_star: "built c p \<Longrightarrow> built c (star p)"
| b_starConsumed: "built c p \<Longrightarrow> built c (starConsumed p)"
| b_filterUndefined: "built c p \<Longrightarrow> array_valued p \<Longrightarrow> built c (filterUndefined p)"
| b_then: "built c p \<Longrightarrow> built c q \<Longrightarrow> built c (then_p p q join)"
| b_plus: "built c p \<Longrightarrow> built c (plus_p p)"
| b_plusConsumed: "built c p \<Longrightarrow> built c (plusConsumed p)"
| b_preceded: "built c p \<Longrightarrow> built c q \<Longrightarrow> built c (preceded p q)"
| b_followed: "built c p \<Longrightarrow> built c q \<Longrightarrow> built c (followed p q)"
| b_delimited: "built c p \<Longrightarrow> built c q \<Longrightarrow> built c r \<Longrightarrow> (cutAfterOpen \<longrightarrow> c)
     \<Longrightarrow> built c (delimited p q r cutAfterOpen)"
| b_recognize: "built c p \<Longrightarrow> built c (recognize p)"
| b_peek: "built c p \<Longrightarrow> built c (peek p)"
| b_not: "built c p \<Longrightarrow> built c (not_p p expd)"
| b_except: "built c p \<Longrightarrow> built c q \<Longrightarrow> built c (except p q expd)"
| b_dispatch: "(\<forall>cp q. mapping cp = Some q \<longrightarrow> built c q) \<Longrightarrow> (\<forall>q. otherwise = Some q \<longrightarrow> built c q)
     \<Longrightarrow> built c (dispatch mapping otherwise extraOffset expd)"
| b_cut: "c \<Longrightarrow> built c p \<Longrightarrow> built c (cut_p p)"
| b_complete: "built c p \<Longrightarrow> built c (complete p)"

text \<open>
  What a result must satisfy for a call at \<open>offs\<close>: a success does not lie before
  \<open>offs\<close> nor beyond the larger of \<open>offs\<close> and the length of the input; and when
  \<open>offs\<close> lies within the input, so does the offset of the result, success or failure.
\<close>

definition sound_result :: "jsstring \<Rightarrow> int \<Rightarrow> ParseResult \<Rightarrow> bool" where
  "sound_result input offs r \<longleftrightarrow>
     (success r \<longrightarrow> offs \<le> offset r \<and> offset r \<le> max offs (int (length input))) \<and>
     (0 \<le> offs \<and> offs \<le> int (length input) \<longrightarrow> 0 \<le> offset r \<and> offset r \<le> int (length input))"

definition well_behaved :: "Parser \<Rightarrow> bool" where
  "well_behaved p \<longleftrightarrow> (\<forall>input offs. \<exists>r. p input offs = Some r \<and> sound_result input offs r)"

text \<open>The invariant of \<open>lastError\<close> in the loop of \<open>or\<close>.\<close>

definition sound_last :: "jsstring \<Rightarrow> int \<Rightarrow> failure option \<Rightarrow> bool" where
  "sound_last input offs le \<longleftrightarrow>
     (\<forall>lo lx lf. le = Some (lo, lx, lf) \<longrightarrow> sound_result input offs (Failure lo lx lf))"

text \<open>
  What the loop of \<open>star\<close> needs of its parser: the parser returns, and a success of it
  lies at or after the offset it was called at and not beyond the end of the input (when it
  is called beyond the end: not beyond that offset). The outcomes of the specification
  (offsets within the input, a success not before the offset passed in) are of this kind.
\<close>

definition stays_within :: "Parser \<Rightarrow> bool" where
  "stays_within p \<longleftrightarrow>
     (\<forall>input offs. \<exists>r. p input offs = Some r \<and>
        (success r \<longrightarrow> offs \<le> offset r \<and> offset r \<le> max offs (int (length input))))"

section \<open>Rounds of the loops\<close>

text \<open>
  The rounds of the loop of \<open>star\<close> and \<open>starConsumed\<close>: the loop goes round again
  after every success of its parser that moved the offset. \<open>rounds p input n steps\<close>: from
  the offset \<open>n\<close> on, the parser succeeds and advances round after round, to the offsets and
  with the values listed in \<open>steps\<close>; \<open>reached n steps\<close> is the offset at which the round
  after these starts.
\<close>

fun rounds :: "Parser \<Rightarrow> jsstring \<Rightarrow> int \<Rightarrow> (int \<times> jsval) list \<Rightarrow> bool" where
  "rounds p input n [] = True"
| "rounds p input n ((off, v) # steps) =
     (p input n = Some (Success off v) \<and> off \<noteq> n \<and> rounds p input off steps)"

fun reached :: "int \<Rightarrow> (int \<times> jsval) list \<Rightarrow> int" where
  "reached n [] = n"
| "reached n ((off, v) # steps) = reached off steps"

text \<open>The predicate \<^verbatim>\<open>() => true\<close>, which accepts every code point.\<close>

definition any_codepoint :: "int \<Rightarrow> bool" where
  "any_codepoint cp = True"

text \<open>
  \<open>walk input offs cps = Some mid\<close>: from the offset \<open>offs\<close> on, the decoder reads the code
  points \<open>cps\<close> one after the other, each where the one before it ends, and \<open>mid\<close> is
  the offset behind the last of them.
\<close>

fun walk :: "bytes \<Rightarrow> int \<Rightarrow> int list \<Rightarrow> int option" where
  "walk input offs [] = Some offs"
| "walk input offs (c # cs) =
     (if getUtf8Codepoint input offs = Inr (Some c) then walk input (offs + getUtf8Length c) cs
      else None)"

section \<open>Fatal failures and the aggregate failure of \<open>or\<close>\<close>

text \<open>A parser never fails fatally.\<close>

definition never_fatal :: "Parser \<Rightarrow> bool" where
  "never_fatal p \<longleftrightarrow> (\<forall>input offs off e. p input offs \<noteq> Some (Failure off e True))"

text \<open>The predicate \<^verbatim>\<open>() => false\<close>, which the tests of \<open>filter\<close> pass to it.\<close>

definition reject :: "jsval \<Rightarrow> bool" where
  "reject v = False"

text \<open>
  The parsers of \<^verbatim>\<open>or([token('a'), then(token('b'), token('c'), second)])\<close>, an \<open>or\<close>
  built without an override.
\<close>

definition ab_or_bc :: "Parser list" where
  "ab_or_bc = [token (js ''a''), then_p (token (js ''b'')) (token (js ''c'')) second]"

text \<open>
  The aggregate failure of \<open>or\<close> in the words of the specification, for the failures
  \<open>fs\<close> of the branches (offset and expected list of each, in the order tried): the
  greatest offset, with the override if there is one, and otherwise the expected lists of
  the failures at that offset, concatenated in order; with no branch, the starting offset
  and the override or the empty list.
\<close>

definition furthest :: "(int \<times> jsstring list) list \<Rightarrow> int" where
  "furthest fs = Max (set (map fst fs))"

definition aggregate :: "int \<Rightarrow> jsstring list option \<Rightarrow> (int \<times> jsstring list) list \<Rightarrow> ParseResult" where
  "aggregate offs expdo fs =
     (if fs = [] then Failure offs (case expdo of Some e \<Rightarrow> e | None \<Rightarrow> []) False
      else Failure (furthest fs)
             (case expdo of
                Some e \<Rightarrow> e
              | None \<Rightarrow> concat (map snd (filter (\<lambda>f. fst f = furthest fs) fs)))
             False)"

section \<open>Grammars of streaming operators and their synchronous forms\<close>

text \<open>
  A grammar built purely from the streaming operators over underlying parsers, and the
  streaming parser it denotes.
\<close>

datatype sgrammar =
    Streaming Parser
  | StreamingThen sgrammar sgrammar
  | StreamingStar sgrammar
  | StreamingOptional sgrammar
  | StreamingComplete sgrammar
  | StreamingFilterUndefined sgrammar

fun incremental :: "sgrammar \<Rightarrow> StreamingParser" where
  "incremental (Streaming p) = streaming p"
| "incremental (StreamingThen g h) = streamingThen (incremental g) (incremental h)"
| "incremental (StreamingStar g) = streamingStar (incremental g)"
| "incremental (StreamingOptional g) = streamingOptional (incremental g)"
| "incremental (StreamingComplete g) = streamingComplete (incremental g)"
| "incremental (StreamingFilterUndefined g) = streamingFilterUndefined (incremental g)"

text \<open>
  The corresponding synchronous parser, from the words of the specification: each
  streaming operator is replaced by the synchronous combinator it mirrors (\<open>then\<close>,
  \<open>star\<close>, \<open>optional\<close>, \<open>complete\<close>, \<open>filterUndefined\<close>). The flattening is
  built in, so that the value of every synchronous form is the array of the items: an
  underlying parser's value \<open>v\<close> becomes \<^verbatim>\<open>[v]\<close>, \<open>then\<close> joins with
  \<^verbatim>\<open>(x, y) => [].concat(x, y)\<close>, the array of arrays of \<open>star\<close> is flattened one level
  (\<^verbatim>\<open>vs.flat()\<close>), and the \<^verbatim>\<open>null\<close> of \<open>optional\<close> becomes \<^verbatim>\<open>[]\<close>.
\<close>

definition spread :: "jsval \<Rightarrow> jsval list" where
  "spread v = (case v of Arr xs \<Rightarrow> xs | _ \<Rightarrow> [v])"

definition singleton :: "jsval \<Rightarrow> jsval" where
  "singleton v = Arr [v]"

definition concat2 :: "jsval \<Rightarrow> jsval \<Rightarrow> jsval" where
  "concat2 x y = Arr (spread x @ spread y)"

definition flat :: "jsval \<Rightarrow> jsval" where
  "flat vs = Arr (concat (map spread (spread vs)))"

definition null_to_empty :: "jsval \<Rightarrow> jsval" where
  "null_to_empty v = (if v = Null then Arr [] else v)"

fun synchronous :: "sgrammar \<Rightarrow> Parser" where
  "synchronous (Streaming p) = map_p p singleton"
| "synchronous (StreamingThen g h) = then_p (synchronous g) (synchronous h) concat2"
| "synchronous (StreamingStar g) = map_p (star (synchronous g)) flat"
| "synchronous (StreamingOptional g) = map_p (optional (synchronous g)) null_to_empty"
| "synchronous (StreamingComplete g) = complete (synchronous g)"
| "synchronous (StreamingFilterUndefined g) = filterUndefined (synchronous g)"

text \<open>
  The two forms agree: neither returns; or both fail with the same failure; or both
  succeed at the same offset and the value of the synchronous form is the array of the
  items the streaming form yielded, in order.
\<close>

fun agree :: "ParseResult option \<Rightarrow> (jsval list \<times> ParseResult) option \<Rightarrow> bool" where
  "agree None None = True"
| "agree (Some (Failure off e f)) (Some (ys, r)) = (r = Failure off e f)"
| "agree (Some (Success off v)) (Some (ys, r)) = (v = Arr ys \<and> success r \<and> offset r = off)"
| "agree _ _ = False"

text \<open>
  A lookahead parser that succeeds with the value \<^verbatim>\<open>null\<close> on \<open>"a"\<close> and fails on
  \<open>"c"\<close>: \<^verbatim>\<open>peek(preceded(token('a'), optional(token('b'))))\<close>.
\<close>

definition a_then_maybe_b :: Parser where
  "a_then_maybe_b = peek (preceded (token (js ''a'')) (optional (token (js ''b''))))"

text \<open>The grammar \<^verbatim>\<open>streamingStar(streamingThen(streaming(token('a')), streaming(token('b'))))\<close>.\<close>

definition ab_star :: sgrammar where
  "ab_star = StreamingStar (StreamingThen (Streaming (token (js ''a''))) (Streaming (token (js ''b''))))"

section \<open>Properties\<close>

subsection \<open>The empty token\<close>

text \<open>
  C10. For every input string and every offset, offsets beyond the end of the input and
  negative ones included, \<open>token("")\<close> succeeds at that same offset with the value
  \<open>""\<close>: \<open>slice(offset, offset)\<close> is the empty string wherever \<open>offset\<close> lies.
\<close>

theorem token_empty: "token [] input offs = Some (Success offs (Str []))"
  by (simp add: token_def slice_def Let_def)

subsection \<open>Fatal failures in \<open>or\<close>\<close>

lemma or_loop_fatal:
  assumes "\<forall>q\<in>set pre. \<exists>off' e'. q input offs = Some (Failure off' e' False)"
      and "p input offs = Some (Failure off e True)"
  shows "or_loop (pre @ p # post) expd input offs le = Some (Inl (Failure off e True))"
  using assms
proof (induction pre arbitrary: le)
  case Nil
  then show ?case by simp
next
  case (Cons q pre)
  then obtain off' e' where q: "q input offs = Some (Failure off' e' False)" by auto
  from Cons have "\<And>le. or_loop (pre @ p # post) expd input offs le = Some (Inl (Failure off e True))"
    by simp
  with q show ?case by (simp add: Let_def)
qed

text \<open>
  C2. When the branches of \<open>or\<close> before \<open>p\<close> fail non-fatally and \<open>p\<close> returns a fatal
  failure, \<open>or\<close> returns that failure as it is, whatever the override \<open>expected\<close> and
  whatever the later branches \<open>post\<close> are: they are not applied (the result is the same
  when a later branch would never return). In particular, when the first branch is
  \<open>cut(p1)\<close> and \<open>p1\<close> fails, \<open>or\<close> returns \<open>p1\<close>'s failure with \<open>fatal = true\<close>.
\<close>

theorem or_fatal_stops:
  "((\<forall>q\<in>set pre. \<exists>off' e'. q input offs = Some (Failure off' e' False)) \<longrightarrow>
      p input offs = Some (Failure off e True) \<longrightarrow>
      or_p (pre @ p # post) expd input offs = Some (Failure off e True)) \<and>
   (p1 input offs = Some (Failure off1 e1 f1) \<longrightarrow>
      or_p (cut_p p1 # post) expd input offs = Some (Failure off1 e1 True))"
proof (intro conjI impI)
  assume "\<forall>q\<in>set pre. \<exists>off' e'. q input offs = Some (Failure off' e' False)"
     and "p input offs = Some (Failure off e True)"
  then show "or_p (pre @ p # post) expd input offs = Some (Failure off e True)"
    by (simp add: or_p_def or_call_def or_loop_fatal)
next
  assume "p1 input offs = Some (Failure off1 e1 f1)"
  then have "cut_p p1 input offs = Some (Failure off1 e1 True)"
    by (simp add: cut_p_def)
  then show "or_p (cut_p p1 # post) expd input offs = Some (Failure off1 e1 True)"
    by (simp add: or_p_def or_call_def)
qed

text \<open>
  The theorem at \<open>or([token("b"), cut(token("a")), q])\<close> and \<open>or([cut(token("a")), q])\<close>
  on the input \<open>"c"\<close>, where \<open>q\<close> is a parser that never returns.
\<close>

theorem or_fatal_stops_witness:
  "or_p ([token (js ''b'')] @ cut_p (token (js ''a'')) # [\<lambda>_ _. None]) None (js ''c'') 0
     = Some (Failure 0 [js ''a''] True) \<and>
   or_p (cut_p (token (js ''a'')) # [\<lambda>_ _. None]) None (js ''c'') 0
     = Some (Failure 0 [js ''a''] True)"
proof -
  have b: "\<forall>q\<in>set [token (js ''b'')]. \<exists>off' e'. q (js ''c'') 0 = Some (Failure off' e' False)"
    by (simp add: token_def slice_def js_def)
  have a: "token (js ''a'') (js ''c'') 0 = Some (Failure 0 [js ''a''] False)"
    by (simp add: token_def slice_def js_def)
  have ca: "cut_p (token (js ''a'')) (js ''c'') 0 = Some (Failure 0 [js ''a''] True)"
    by (simp add: cut_p_def a)
  from or_fatal_stops [of "[token (js ''b'')]" "js ''c''" 0 "cut_p (token (js ''a''))" 0 "[js ''a'']"
      "[\<lambda>_ _. None]" None "token (js ''a'')" 0 "[js ''a'']" False] b a ca
  show ?thesis by blast
qed

subsection \<open>Results of the parsers built from the combinators\<close>

lemma sound_Success [simp]:
  "sound_result input offs (Success off v) \<longleftrightarrow> offs \<le> off \<and> off \<le> max offs (int (length input))"
  by (auto simp: sound_result_def)

lemma sound_Failure [simp]:
  "sound_result input offs (Failure off e f) \<longleftrightarrow>
     (0 \<le> offs \<and> offs \<le> int (length input) \<longrightarrow> 0 \<le> off \<and> off \<le> int (length input))"
  by (simp add: sound_result_def)

lemma sound_trans:
  "sound_result input offs (Success off1 v1) \<Longrightarrow> sound_result input off1 r \<Longrightarrow> sound_result input offs r"
  by (cases r) auto

lemma well_behavedI:
  "(\<And>input offs. \<exists>r. p input offs = Some r \<and> sound_result input offs r) \<Longrightarrow> well_behaved p"
  by (simp add: well_behaved_def)

lemma well_behavedE:
  assumes "well_behaved p"
  obtains r where "p input offs = Some r" and "sound_result input offs r"
  using assms by (auto simp: well_behaved_def)

lemma slice_eq_bound:
  assumes "slice s a (a + int (length t)) = t"
  shows "a + int (length t) \<le> max a (int (length s))"
proof -
  have "length (slice s a (a + int (length t))) = length t" using assms by simp
  then show ?thesis
    by (auto simp: slice_def Let_def min_def max_def split: if_splits)
qed

lemma wb_token: "well_behaved (token tok)"
  by (rule well_behavedI) (auto simp: token_def Let_def dest: slice_eq_bound)

lemma codePointAt_Some:
  assumes "codePointAt s pos = Some cp"
  shows "0 \<le> pos \<and> pos + lengthFromCodePoint cp \<le> int (length s)"
proof -
  have u: "uint (s ! nat pos) \<le> 0xFFFF"
    using uint_lt2p [of "s ! nat pos"] by simp
  from assms u show ?thesis
    by (auto simp: codePointAt_def lengthFromCodePoint_def Let_def split: if_splits)
qed

lemma wb_codepoint: "well_behaved (codepoint isMatch expd)"
  by (rule well_behavedI)
     (auto simp: codepoint_def lengthFromCodePoint_def split: option.splits dest!: codePointAt_Some)

lemma codepoints_loop_bound:
  "offs \<le> codepoints_loop isMatch input offs \<and>
   codepoints_loop isMatch input offs \<le> max offs (int (length input))"
proof (induction isMatch input offs rule: codepoints_loop.induct)
  case (1 isMatch input offs)
  show ?case
  proof (cases "codePointAt input offs")
    case None
    then show ?thesis by (subst codepoints_loop.simps, subst (2) codepoints_loop.simps) simp
  next
    case (Some cp)
    note cp = codePointAt_Some [OF Some]
    show ?thesis
    proof (cases "isMatch cp")
      case False
      with Some show ?thesis by (subst codepoints_loop.simps, subst (2) codepoints_loop.simps) simp
    next
      case True
      from "1.IH" [OF Some] True cp Some show ?thesis
        by (subst codepoints_loop.simps, subst (2) codepoints_loop.simps)
           (auto simp: lengthFromCodePoint_def split: if_splits)
    qed
  qed
qed

lemma wb_codepoints: "well_behaved (codepoints isMatch expdo)"
  using codepoints_loop_bound
  by (intro well_behavedI) (auto simp: codepoints_def Let_def split: option.splits)

lemma skipChars_loop_sound: "sound_result input offs (skipChars_loop input offs i)"
proof (induction input offs i rule: skipChars_loop.induct)
  case (1 input offs i)
  show ?case
  proof (cases "i > 0")
    case False
    then show ?thesis by (subst skipChars_loop.simps) simp
  next
    case True
    show ?thesis
    proof (cases "codePointAt input offs")
      case None
      with True show ?thesis by (subst skipChars_loop.simps) simp
    next
      case (Some cp)
      note cp = codePointAt_Some [OF Some]
      have step: "sound_result input offs (Success (offs + lengthFromCodePoint cp) Undefined)"
        using cp by (auto simp: lengthFromCodePoint_def)
      from "1.IH" [OF True Some] have "sound_result input offs
          (skipChars_loop input (offs + lengthFromCodePoint cp) (i - 1))"
        by (rule sound_trans [OF step])
      with True Some show ?thesis by (subst skipChars_loop.simps) simp
    qed
  qed
qed

lemma wb_skipChars: "well_behaved (skipChars n)"
  by (rule well_behavedI) (simp add: skipChars_def skipChars_loop_sound)

lemma wb_start: "well_behaved start"
  by (rule well_behavedI) (simp add: start_def)

lemma wb_end: "well_behaved end_p"
  by (rule well_behavedI) (auto simp: end_p_def)

lemma wb_range: "range_p a b e = Some p \<Longrightarrow> well_behaved p"
  by (auto simp: range_p_def wb_codepoint split: option.splits)

lemma wb_map: "well_behaved p \<Longrightarrow> well_behaved (map_p p f)"
proof (rule well_behavedI)
  fix input offs assume "well_behaved p"
  then obtain r where "p input offs = Some r" "sound_result input offs r" by (rule well_behavedE)
  then show "\<exists>r. map_p p f input offs = Some r \<and> sound_result input offs r"
    by (cases r) (simp_all add: map_p_def)
qed

lemma wb_filter: "well_behaved p \<Longrightarrow> well_behaved (filter_p p pred expd ftl)"
proof (rule well_behavedI)
  fix input offs assume "well_behaved p"
  then obtain r where "p input offs = Some r" "sound_result input offs r" by (rule well_behavedE)
  then show "\<exists>r. filter_p p pred expd ftl input offs = Some r \<and> sound_result input offs r"
    by (cases r) (simp_all add: filter_p_def)
qed

lemma wb_optional: "well_behaved p \<Longrightarrow> well_behaved (optional p)"
proof (rule well_behavedI)
  fix input offs assume "well_behaved p"
  then obtain r where "p input offs = Some r" "sound_result input offs r" by (rule well_behavedE)
  then show "\<exists>r. optional p input offs = Some r \<and> sound_result input offs r"
    by (cases r) (simp_all add: optional_def)
qed

lemma wb_recognize: "well_behaved p \<Longrightarrow> well_behaved (recognize p)"
proof (rule well_behavedI)
  fix input offs assume "well_behaved p"
  then obtain r where "p input offs = Some r" "sound_result input offs r" by (rule well_behavedE)
  then show "\<exists>r. recognize p input offs = Some r \<and> sound_result input offs r"
    by (cases r) (simp_all add: recognize_def)
qed

lemma wb_peek: "well_behaved p \<Longrightarrow> well_behaved (peek p)"
proof (rule well_behavedI)
  fix input offs assume "well_behaved p"
  then obtain r where "p input offs = Some r" "sound_result input offs r" by (rule well_behavedE)
  then show "\<exists>r. peek p input offs = Some r \<and> sound_result input offs r"
    by (cases r) (simp_all add: peek_def)
qed

lemma wb_not: "well_behaved p \<Longrightarrow> well_behaved (not_p p expd)"
proof (rule well_behavedI)
  fix input offs assume "well_behaved p"
  then obtain r where "p input offs = Some r" "sound_result input offs r" by (rule well_behavedE)
  then show "\<exists>r. not_p p expd input offs = Some r \<and> sound_result input offs r"
    by (cases r) (simp_all add: not_p_def)
qed

lemma wb_cut: "well_behaved p \<Longrightarrow> well_behaved (cut_p p)"
proof (rule well_behavedI)
  fix input offs assume "well_behaved p"
  then obtain r where "p input offs = Some r" "sound_result input offs r" by (rule well_behavedE)
  then show "\<exists>r. cut_p p input offs = Some r \<and> sound_result input offs r"
    by (cases r) (simp_all add: cut_p_def)
qed

lemma wb_filterUndefined:
  assumes "well_behaved p" and "array_valued p"
  shows "well_behaved (filterUndefined p)"
proof (rule well_behavedI)
  fix input offs
  from assms(1) obtain r where r: "p input offs = Some r" "sound_result input offs r"
    by (rule well_behavedE)
  show "\<exists>r. filterUndefined p input offs = Some r \<and> sound_result input offs r"
  proof (cases r)
    case (Success off v)
    with r assms(2) obtain vs where "v = Arr vs" unfolding array_valued_def by blast
    with Success r show ?thesis by (simp add: filterUndefined_def)
  next
    case Failure
    with r show ?thesis by (simp add: filterUndefined_def)
  qed
qed

lemma wb_then:
  assumes "well_behaved p" and "well_behaved q"
  shows "well_behaved (then_p p q join)"
proof (rule well_behavedI)
  fix input offs
  from assms(1) obtain r1 where r1: "p input offs = Some r1" "sound_result input offs r1"
    by (rule well_behavedE)
  show "\<exists>r. then_p p q join input offs = Some r \<and> sound_result input offs r"
  proof (cases r1)
    case Failure
    with r1 show ?thesis by (simp add: then_p_def)
  next
    case (Success off1 v1)
    from assms(2) obtain r2 where r2: "q input off1 = Some r2" "sound_result input off1 r2"
      by (rule well_behavedE)
    from r1 r2 Success have "sound_result input offs r2" by (auto intro: sound_trans)
    with r1 r2 Success show ?thesis by (cases r2) (simp_all add: then_p_def)
  qed
qed

lemma wb_dispatch:
  assumes "\<forall>cp q. mapping cp = Some q \<longrightarrow> well_behaved q"
      and "\<forall>q. otherwise = Some q \<longrightarrow> well_behaved q"
  shows "well_behaved (dispatch mapping otherwise extraOffset expd)"
proof (rule well_behavedI)
  fix input offs
  show "\<exists>r. dispatch mapping otherwise extraOffset expd input offs = Some r \<and> sound_result input offs r"
  proof (cases "codePointAt input (offs + extraOffset)")
    case None
    then show ?thesis by (simp add: dispatch_def)
  next
    case (Some cp)
    show ?thesis
    proof (cases "mapping cp")
      case (Some q)
      with assms(1) have "well_behaved q" by simp
      then obtain r where "q input offs = Some r" "sound_result input offs r" by (rule well_behavedE)
      with Some \<open>codePointAt input (offs + extraOffset) = Some cp\<close> show ?thesis
        by (simp add: dispatch_def)
    next
      case None
      show ?thesis
      proof (cases otherwise)
        case (Some q)
        with assms(2) have "well_behaved q" by simp
        then obtain r where "q input offs = Some r" "sound_result input offs r" by (rule well_behavedE)
        with Some None \<open>codePointAt input (offs + extraOffset) = Some cp\<close> show ?thesis
          by (simp add: dispatch_def)
      next
        case None
        with \<open>mapping cp = None\<close> \<open>codePointAt input (offs + extraOffset) = Some cp\<close> show ?thesis
          by (simp add: dispatch_def)
      qed
    qed
  qed
qed

lemma or_loop_sound:
  assumes "\<forall>p\<in>set ps. well_behaved p" and "sound_last input offs le"
  shows "\<exists>x. or_loop ps expdo input offs le = Some x \<and>
           (case x of Inl r \<Rightarrow> sound_result input offs r | Inr le' \<Rightarrow> sound_last input offs le')"
  using assms
proof (induction ps arbitrary: le)
  case Nil
  then show ?case by simp
next
  case (Cons p ps)
  then have "well_behaved p" by simp
  then obtain r where r: "p input offs = Some r" "sound_result input offs r" by (rule well_behavedE)
  show ?case
  proof (cases r)
    case Success
    with r show ?thesis by simp
  next
    case (Failure roff rexp rfatal)
    let ?le' = "(case le of
              None \<Rightarrow> Some (roff, rexp, rfatal)
            | Some (loff, lexp, lfatal) \<Rightarrow>
                if roff > loff then Some (roff, rexp, rfatal)
                else if roff = loff \<and> expdo = None then Some (loff, lexp @ rexp, lfatal)
                else le)"
    have "sound_last input offs ?le'"
      using Cons.prems(2) r(2) Failure
      by (auto simp: sound_last_def split: option.splits if_splits)
    with Cons.IH [of ?le'] Cons.prems(1)
    obtain x where "or_loop ps expdo input offs ?le' = Some x"
        "(case x of Inl r \<Rightarrow> sound_result input offs r | Inr le' \<Rightarrow> sound_last input offs le')"
      by auto
    with r Failure show ?thesis by (simp add: Let_def)
  qed
qed

lemma wb_or:
  assumes "\<forall>p\<in>set ps. well_behaved p"
  shows "well_behaved (or_p ps expdo)"
proof (rule well_behavedI)
  fix input offs
  have "sound_last input offs None" by (simp add: sound_last_def)
  with or_loop_sound [OF assms, of input offs None expdo]
  obtain x where x: "or_loop ps expdo input offs None = Some x"
      "(case x of Inl r \<Rightarrow> sound_result input offs r | Inr le' \<Rightarrow> sound_last input offs le')"
    by auto
  show "\<exists>r. or_p ps expdo input offs = Some r \<and> sound_result input offs r"
  proof (cases x)
    case (Inl r)
    with x show ?thesis by (simp add: or_p_def or_call_def)
  next
    case (Inr le')
    with x show ?thesis
      by (cases le') (auto simp: or_p_def or_call_def sound_last_def Let_def split: option.splits)
  qed
qed

lemma star_loop_sound:
  assumes "well_behaved p"
  shows "\<exists>r. star_loop p input ts n = Some r \<and> sound_result input n r"
proof (induction "nat (int (length input) - n)" arbitrary: ts n rule: less_induct)
  case less
  from assms obtain r where r: "p input n = Some r" "sound_result input n r"
    by (rule well_behavedE)
  show ?case
  proof (cases r)
    case (Failure off e f)
    with r show ?thesis by (subst star_loop.simps) auto
  next
    case (Success off v)
    show ?thesis
    proof (cases "off = n")
      case True
      with r Success show ?thesis by (subst star_loop.simps) simp
    next
      case False
      with r Success have adv: "n < off" "off \<le> int (length input)" by auto
      then have "nat (int (length input) - off) < nat (int (length input) - n)" by simp
      from less [OF this, of "ts @ [v]"]
      obtain r' where r': "star_loop p input (ts @ [v]) off = Some r'" "sound_result input off r'"
        by auto
      from r Success r'(2) have "sound_result input n r'" by (auto intro: sound_trans)
      with r Success False r'(1) show ?thesis by (subst star_loop.simps) simp
    qed
  qed
qed

lemma wb_star: "well_behaved p \<Longrightarrow> well_behaved (star p)"
  by (rule well_behavedI) (simp add: star_def star_loop_sound)

lemma starConsumed_loop_sound:
  assumes "well_behaved p"
  shows "\<exists>r. starConsumed_loop p input n = Some r \<and> sound_result input n r"
proof (induction "nat (int (length input) - n)" arbitrary: n rule: less_induct)
  case less
  from assms obtain r where r: "p input n = Some r" "sound_result input n r"
    by (rule well_behavedE)
  show ?case
  proof (cases r)
    case (Failure off e f)
    with r show ?thesis by (subst starConsumed_loop.simps) auto
  next
    case (Success off v)
    show ?thesis
    proof (cases "off = n")
      case True
      with r Success show ?thesis by (subst starConsumed_loop.simps) simp
    next
      case False
      with r Success have adv: "n < off" "off \<le> int (length input)" by auto
      then have "nat (int (length input) - off) < nat (int (length input) - n)" by simp
      from less [OF this]
      obtain r' where r': "starConsumed_loop p input off = Some r'" "sound_result input off r'"
        by auto
      from r Success r'(2) have "sound_result input n r'" by (auto intro: sound_trans)
      with r Success False r'(1) show ?thesis by (subst starConsumed_loop.simps) simp
    qed
  qed
qed

lemma wb_starConsumed: "well_behaved p \<Longrightarrow> well_behaved (starConsumed p)"
  by (rule well_behavedI) (simp add: starConsumed_def starConsumed_loop_sound)

lemma built_well_behaved: "built c p \<Longrightarrow> well_behaved p"
proof (induction rule: built.induct)
  case (b_dispatch mapping otherwise extraOffset expd)
  then show ?case by (intro wb_dispatch) auto
qed (simp_all add: wb_token wb_codepoint wb_codepoints wb_range wb_skipChars wb_start wb_end
      wb_map wb_filter wb_or wb_optional wb_star wb_starConsumed wb_filterUndefined wb_then
      wb_recognize wb_peek wb_not wb_cut
      consume_def plus_p_def plusConsumed_def preceded_def followed_def delimited_def
      except_def complete_def)

subsection \<open>Offsets and the termination of \<open>star\<close>\<close>

lemma peek_Success: "peek q input offs = Some (Success off' v') \<Longrightarrow> off' = offs"
  by (cases "q input offs") (auto simp: peek_def split: ParseResult.splits)

text \<open>
  C7. A successful outcome of a parser built from the library's combinators never lies
  before the offset the parser was called at, for every input and every offset; and a
  successful outcome of \<open>peek(q)\<close>, for any parser \<open>q\<close>, lies exactly at the offset
  \<open>peek(q)\<close> was called at.
\<close>

theorem offsets_never_move_back:
  "(built True p \<longrightarrow> p input offs = Some (Success off v) \<longrightarrow> offs \<le> off) \<and>
   (peek q input offs = Some (Success off' v') \<longrightarrow> off' = offs)"
proof (intro conjI impI)
  assume "built True p" and r: "p input offs = Some (Success off v)"
  then have "well_behaved p" by (simp add: built_well_behaved)
  then obtain r' where "p input offs = Some r'" "sound_result input offs r'" by (rule well_behavedE)
  with r show "offs \<le> off" by simp
next
  assume "peek q input offs = Some (Success off' v')"
  then show "off' = offs" by (rule peek_Success)
qed

lemma token_a_aab: "token (js ''a'') (js ''aab'') 0 = Some (Success 1 (Str (js ''a'')))"
  by (simp add: token_def slice_def js_def)

lemma token_a_aab1: "token (js ''a'') (js ''aab'') 1 = Some (Success 2 (Str (js ''a'')))"
  by (simp add: token_def slice_def js_def)

lemma token_a_aab2: "token (js ''a'') (js ''aab'') 2 = Some (Failure 2 [js ''a''] False)"
  by (simp add: token_def slice_def js_def)

lemma star_a_aab:
  "star (token (js ''a'')) (js ''aab'') 0 = Some (Success 2 (Arr [Str (js ''a''), Str (js ''a'')]))"
  by (simp add: star_def star_loop.simps [of _ _ _ 0] star_loop.simps [of _ _ _ 1]
        star_loop.simps [of _ _ _ 2] token_a_aab token_a_aab1 token_a_aab2)

text \<open>The theorem at \<open>star(token("a"))\<close> and \<open>peek(token("a"))\<close> on the input \<open>"aab"\<close>.\<close>

theorem offsets_never_move_back_witness:
  "built True (star (token (js ''a''))) \<and>
   star (token (js ''a'')) (js ''aab'') 0 = Some (Success 2 (Arr [Str (js ''a''), Str (js ''a'')])) \<and>
   (0::int) \<le> 2 \<and>
   peek (token (js ''a'')) (js ''aab'') 0 = Some (Success 0 (Str (js ''a'')))"
proof -
  have b: "built True (star (token (js ''a'')))"
    by (intro built.intros)
  have pk: "peek (token (js ''a'')) (js ''aab'') 0 = Some (Success 0 (Str (js ''a'')))"
    by (simp add: peek_def token_a_aab)
  from offsets_never_move_back [where p = "star (token (js ''a''))" and input = "js ''aab''"
      and offs = 0 and off = 2 and v = "Arr [Str (js ''a''), Str (js ''a'')]"
      and q = "token (js ''a'')" and off' = 0 and v' = "Str (js ''a'')"]
    b star_a_aab pk
  show ?thesis by simp
qed

text \<open>
  At and beyond the end of the bytes \<^verbatim>\<open>input[offset]\<close> is \<^verbatim>\<open>undefined\<close>, which
  \<^verbatim>\<open>input[offset] | 0\<close> turns into 0: the decoder returns the code point 0 there, and
  \<open>codepointUtf8\<close> with a predicate that accepts it succeeds one byte further. (Below
  \<open>2^53\<close> the offsets are integers that a JavaScript number holds exactly.)
\<close>

lemma codepointUtf8_past_end:
  assumes "int (length input) \<le> offs" and "offs < 2 ^ 53" and "isMatch 0"
  shows "codepointUtf8 isMatch expd input offs = Some (Inr (Success (offs + 1) Undefined))"
  using assms by (simp add: codepointUtf8_def getUtf8Codepoint_def byteAt_def getUtf8Length_def)

text \<open>
  C8 as stated fails when the parser is called beyond the end of the input, as the test
  of \<open>token\<close> does: \<open>token("zaz")("zzazz", 7)\<close> fails at offset 7, which is larger than
  the length 5 of the input. The byte-oriented primitives leave the input even when they
  are called within it: at the end of the bytes the decoder reads the missing byte as the
  code point 0, so on the single byte \<open>0x61\<close> \<open>codepointUtf8\<close> with a predicate that
  accepts every code point, called at offset 1, succeeds at offset 2, and
  \<open>skipCharsUtf8(2)\<close>, called at offset 0, succeeds at offset 2.
\<close>

theorem offset_out_of_range_counterexample:
  "built True (token (js ''zaz'')) \<and>
   token (js ''zaz'') (js ''zzazz'') 7 = Some (Failure 7 [js ''zaz''] False) \<and>
   \<not> (7 \<le> int (length (js ''zzazz''))) \<and>
   codepointUtf8 any_codepoint [js ''x''] [0x61] 1 = Some (Inr (Success 2 Undefined)) \<and>
   skipCharsUtf8 2 [0x61] 0 = Some (Inr (Success 2 Undefined)) \<and>
   int (length [0x61 :: 8 word]) = 1"
  by (intro conjI b_token)
     (simp_all add: token_def slice_def js_def codepointUtf8_def any_codepoint_def
        skipCharsUtf8_def skipCharsUtf8_loop.simps [of _ _ 2] skipCharsUtf8_loop.simps [of _ _ 1]
        skipCharsUtf8_loop.simps [of _ _ 0] getUtf8Codepoint_def byteAt_def getUtf8Length_def)

text \<open>
  C8, amended. When a parser built from the primitives and combinators of
  parser-combinators.ts, the algebra over strings, is called at an offset within
  \<open>[0, length(input)]\<close>, it returns a result, and the offset of that result, success or
  failure, lies within \<open>[0, length(input)]\<close>. The byte-oriented primitives of utf8.ts
  are not among these parsers.
\<close>

theorem offsets_stay_in_input:
  assumes "built True p" and "0 \<le> offs" and "offs \<le> int (length input)"
  shows "\<exists>r. p input offs = Some r \<and> 0 \<le> offset r \<and> offset r \<le> int (length input)"
proof -
  from assms(1) have "well_behaved p" by (rule built_well_behaved)
  then obtain r where "p input offs = Some r" "sound_result input offs r" by (rule well_behavedE)
  with assms(2,3) show ?thesis by (auto simp: sound_result_def)
qed

text \<open>The theorem at \<open>star(token("a"))\<close> on the input \<open>"aab"\<close>, offset 0.\<close>

theorem offsets_stay_in_input_witness:
  "built True (star (token (js ''a''))) \<and> (0::int) \<le> 0 \<and> 0 \<le> int (length (js ''aab'')) \<and>
   (\<exists>r. star (token (js ''a'')) (js ''aab'') 0 = Some r \<and> 0 \<le> offset r \<and>
        offset r \<le> int (length (js ''aab'')))"
proof -
  have b: "built True (star (token (js ''a'')))"
    by (intro built.intros)
  have l: "(0::int) \<le> int (length (js ''aab''))" by simp
  from offsets_stay_in_input [OF b _ l] b l show ?thesis by simp
qed

lemma stays_withinE:
  assumes "stays_within p"
  obtains r where "p input offs = Some r"
    and "success r \<longrightarrow> offs \<le> offset r \<and> offset r \<le> max offs (int (length input))"
  using assms by (auto simp: stays_within_def)

lemma well_behaved_stays_within: "well_behaved p \<Longrightarrow> stays_within p"
  by (auto simp: well_behaved_def stays_within_def sound_result_def)

lemma star_loop_returns:
  assumes "stays_within p"
  shows "\<exists>r. star_loop p input ts n = Some r"
proof (induction "nat (int (length input) - n)" arbitrary: ts n rule: less_induct)
  case less
  from assms obtain r where r: "p input n = Some r"
    "success r \<longrightarrow> n \<le> offset r \<and> offset r \<le> max n (int (length input))"
    by (rule stays_withinE)
  show ?case
  proof (cases r)
    case (Failure off e f)
    with r show ?thesis by (subst star_loop.simps) auto
  next
    case (Success off v)
    show ?thesis
    proof (cases "off = n")
      case True
      with r Success show ?thesis by (subst star_loop.simps) simp
    next
      case False
      with r Success have adv: "n < off" "off \<le> int (length input)" by auto
      then have "nat (int (length input) - off) < nat (int (length input) - n)" by simp
      from less [OF this, of "ts @ [v]"]
      obtain r' where r': "star_loop p input (ts @ [v]) off = Some r'" by auto
      with r Success False show ?thesis by (subst star_loop.simps) simp
    qed
  qed
qed

lemma star_loop_rounds_no_advance:
  "rounds q input n steps \<Longrightarrow> q input (reached n steps) = Some (Success (reached n steps) v)
     \<Longrightarrow> star_loop q input ts n = Some (Success (reached n steps) (Arr (ts @ map snd steps @ [v])))"
proof (induction steps arbitrary: n ts)
  case Nil
  then show ?case by (subst star_loop.simps) simp
next
  case (Cons s steps)
  obtain o1 v1 where s: "s = (o1, v1)" by (cases s)
  from Cons.prems s have q: "q input n = Some (Success o1 v1)" "o1 \<noteq> n"
    and r: "rounds q input o1 steps"
    and f: "q input (reached o1 steps) = Some (Success (reached o1 steps) v)"
    by simp_all
  from Cons.IH [OF r f, of "ts @ [v1]"] q s show ?case by (subst star_loop.simps) simp
qed

lemma star_loop_rounds_fatal:
  "rounds q input n steps \<Longrightarrow> q input (reached n steps) = Some (Failure off e True)
     \<Longrightarrow> star_loop q input ts n = Some (Failure off e True)"
proof (induction steps arbitrary: n ts)
  case Nil
  then show ?case by (subst star_loop.simps) simp
next
  case (Cons s steps)
  obtain o1 v1 where s: "s = (o1, v1)" by (cases s)
  from Cons.prems s have q: "q input n = Some (Success o1 v1)" "o1 \<noteq> n"
    and r: "rounds q input o1 steps" and f: "q input (reached o1 steps) = Some (Failure off e True)"
    by simp_all
  from Cons.IH [OF r f] have "star_loop q input (ts @ [v1]) o1 = Some (Failure off e True)" .
  with q show ?case by (subst star_loop.simps) simp
qed

lemma starConsumed_loop_rounds_fatal:
  "rounds q input n steps \<Longrightarrow> q input (reached n steps) = Some (Failure off e True)
     \<Longrightarrow> starConsumed_loop q input n = Some (Failure off e True)"
proof (induction steps arbitrary: n)
  case Nil
  then show ?case by (subst starConsumed_loop.simps) simp
next
  case (Cons s steps)
  obtain o1 v1 where s: "s = (o1, v1)" by (cases s)
  from Cons.prems s have q: "q input n = Some (Success o1 v1)" "o1 \<noteq> n"
    and r: "rounds q input o1 steps" and f: "q input (reached o1 steps) = Some (Failure off e True)"
    by simp_all
  from Cons.IH [OF r f] have "starConsumed_loop q input o1 = Some (Failure off e True)" .
  with q show ?case by (subst starConsumed_loop.simps) simp
qed

text \<open>
  C3 as stated fails. \<open>optional(token("a"))\<close> can succeed without consuming input (on
  \<open>"b"\<close> it succeeds at offset 0 with \<open>null\<close>, and so it does on \<open>"ab"\<close> at offset
  1), yet \<open>star\<close> of it on \<open>"ab"\<close> records two iterations, \<open>["a", null]\<close>: the
  iteration that does not advance is the last one recorded, not the only one. Nor do the
  rounds come to an end for every parser: the safeguard ends the loop at a success that
  does not advance, but on the single byte \<open>0x61\<close> \<open>codepointUtf8\<close> with a predicate
  that accepts every code point succeeds at offset 1 with offset 2, at offset 2 with
  offset 3, and so on beyond the end of the bytes (lemma \<open>codepointUtf8_past_end\<close>),
  advancing each time.
\<close>

theorem star_single_iteration_counterexample:
  "optional (token (js ''a'')) (js ''b'') 0 = Some (Success 0 Null) \<and>
   optional (token (js ''a'')) (js ''ab'') 1 = Some (Success 1 Null) \<and>
   star (optional (token (js ''a''))) (js ''ab'') 0
     = Some (Success 1 (Arr [Str (js ''a''), Null])) \<and>
   codepointUtf8 any_codepoint [] [0x61] 1 = Some (Inr (Success 2 Undefined)) \<and>
   codepointUtf8 any_codepoint [] [0x61] 2 = Some (Inr (Success 3 Undefined))"
  by (simp add: star_def star_loop.simps [of _ _ _ 0] star_loop.simps [of _ _ _ 1]
       optional_def token_def slice_def js_def codepointUtf8_def getUtf8Codepoint_def byteAt_def
       getUtf8Length_def any_codepoint_def)

text \<open>
  C3, amended. When the parser \<open>p\<close> always returns, and its successes lie at or after
  the offset it was called at and not beyond the end of the input (nor, when it is called
  beyond the end, beyond that offset), \<open>star(p)\<close> returns, for every input and every
  offset; every parser built from the primitives and combinators of
  parser-combinators.ts is such a parser. For any parser \<open>p\<close>: when, after any number
  of rounds that advanced, an iteration of \<open>p\<close> succeeds without advancing the offset,
  \<open>star\<close> stops at once and returns success at that offset, with the values of those
  rounds and, as the last one, the value of this iteration; so when \<open>p\<close> succeeds at the
  starting offset without consuming input, \<open>star(p)\<close> succeeds at that offset with
  exactly that one value.
\<close>

theorem star_terminates:
  "(stays_within p \<longrightarrow> (\<exists>r. star p input offs = Some r)) \<and>
   (built True p \<longrightarrow> stays_within p) \<and>
   (rounds p input offs steps \<and>
    p input (reached offs steps) = Some (Success (reached offs steps) v) \<longrightarrow>
      star p input offs = Some (Success (reached offs steps) (Arr (map snd steps @ [v])))) \<and>
   (p input offs = Some (Success offs v) \<longrightarrow> star p input offs = Some (Success offs (Arr [v])))"
proof (intro conjI impI; (elim conjE)?)
  assume "stays_within p"
  from star_loop_returns [OF this, of input "[]" offs]
  show "\<exists>r. star p input offs = Some r" by (simp add: star_def)
next
  assume "built True p"
  then have "well_behaved p" by (rule built_well_behaved)
  then show "stays_within p" by (rule well_behaved_stays_within)
next
  assume "rounds p input offs steps"
    and "p input (reached offs steps) = Some (Success (reached offs steps) v)"
  from star_loop_rounds_no_advance [OF this, of "[]"]
  show "star p input offs = Some (Success (reached offs steps) (Arr (map snd steps @ [v])))"
    by (simp add: star_def)
next
  assume "p input offs = Some (Success offs v)"
  then have "rounds p input offs []" "p input (reached offs []) = Some (Success (reached offs []) v)"
    by simp_all
  from star_loop_rounds_no_advance [OF this, of "[]"]
  show "star p input offs = Some (Success offs (Arr [v]))" by (simp add: star_def)
qed

text \<open>
  The theorem at \<open>star(peek(token("a")))\<close> on the input \<open>"a"\<close>, offset 0: success at
  offset 0 with the value \<open>["a"]\<close>; and at \<open>star(optional(token("a")))\<close> on the input
  \<open>"aab"\<close>, where the third iteration is the one that does not advance.
\<close>

theorem star_terminates_witness:
  "built True (peek (token (js ''a''))) \<and>
   stays_within (peek (token (js ''a''))) \<and>
   (\<exists>r. star (peek (token (js ''a''))) (js ''a'') 0 = Some r) \<and>
   peek (token (js ''a'')) (js ''a'') 0 = Some (Success 0 (Str (js ''a''))) \<and>
   star (peek (token (js ''a''))) (js ''a'') 0 = Some (Success 0 (Arr [Str (js ''a'')])) \<and>
   rounds (optional (token (js ''a''))) (js ''aab'') 0
     [(1, Str (js ''a'')), (2, Str (js ''a''))] \<and>
   optional (token (js ''a'')) (js ''aab'') 2 = Some (Success 2 Null) \<and>
   star (optional (token (js ''a''))) (js ''aab'') 0
     = Some (Success 2 (Arr [Str (js ''a''), Str (js ''a''), Null]))"
proof -
  have b: "built True (peek (token (js ''a'')))"
    by (intro built.intros)
  have pk: "peek (token (js ''a'')) (js ''a'') 0 = Some (Success 0 (Str (js ''a'')))"
    by (simp add: peek_def token_def slice_def js_def)
  have r: "rounds (optional (token (js ''a''))) (js ''aab'') 0
      [(1, Str (js ''a'')), (2, Str (js ''a''))]"
    by (simp add: optional_def token_a_aab token_a_aab1)
  have o2: "optional (token (js ''a'')) (js ''aab'') 2 = Some (Success 2 Null)"
    by (simp add: optional_def token_a_aab2)
  note at_peek = star_terminates [where p = "peek (token (js ''a''))" and input = "js ''a''"
      and offs = 0 and v = "Str (js ''a'')"]
  note at_optional = star_terminates [where p = "optional (token (js ''a''))"
      and input = "js ''aab''" and offs = 0 and v = Null
      and steps = "[(1, Str (js ''a'')), (2, Str (js ''a''))]"]
  from at_peek b have sw: "stays_within (peek (token (js ''a'')))" by blast
  from at_peek sw have ret: "\<exists>r. star (peek (token (js ''a''))) (js ''a'') 0 = Some r" by blast
  from at_peek pk
  have one: "star (peek (token (js ''a''))) (js ''a'') 0 = Some (Success 0 (Arr [Str (js ''a'')]))"
    by blast
  from at_optional r o2
  have three: "star (optional (token (js ''a''))) (js ''aab'') 0
     = Some (Success 2 (Arr [Str (js ''a''), Str (js ''a''), Null]))"
    by simp
  from b sw ret pk one r o2 three show ?thesis by blast
qed

subsection \<open>\<open>complete\<close>\<close>

lemma token_a_b: "token (js ''a'') (js ''b'') 0 = Some (Failure 0 [js ''a''] False)"
  by (simp add: token_def slice_def js_def)

lemma token_a_aa: "token (js ''a'') (js ''aa'') 0 = Some (Success 1 (Str (js ''a'')))"
  by (simp add: token_def slice_def js_def)

lemma token_a_a: "token (js ''a'') (js ''a'') 0 = Some (Success 1 (Str (js ''a'')))"
  by (simp add: token_def slice_def js_def)

text \<open>
  C6 as stated fails where \<open>p\<close> itself fails: \<open>then\<close> returns the failure of its first
  parser as it is, so \<open>complete(token("a"))\<close> on \<open>"b"\<close> fails with \<open>p\<close>'s expectation
  \<open>["a"]\<close>, not with an "end of input" expectation.
\<close>

theorem complete_failure_counterexample:
  "complete (token (js ''a'')) (js ''b'') 0 = Some (Failure 0 [js ''a''] False) \<and>
   [js ''a''] \<noteq> [js ''end of input'']"
  by (simp add: complete_def then_p_def token_a_b) (simp add: js_def)

text \<open>
  C6, amended. \<open>complete(p)\<close> succeeds if and only if \<open>p\<close> succeeds and \<open>p\<close>'s resulting
  offset equals the length of the input, and then it returns \<open>p\<close>'s result; when \<open>p\<close>
  succeeds at another offset, \<open>complete(p)\<close> fails, non-fatally, with the expectation
  "end of input" at \<open>p\<close>'s resulting offset; when \<open>p\<close> fails, \<open>complete(p)\<close> returns
  \<open>p\<close>'s failure unchanged.
\<close>

theorem complete_cases:
  "((\<exists>off v. complete p input offs = Some (Success off v)) \<longleftrightarrow>
      (\<exists>v. p input offs = Some (Success (int (length input)) v))) \<and>
   (p input offs = Some (Success off v) \<longrightarrow> off = int (length input) \<longrightarrow>
      complete p input offs = Some (Success off v)) \<and>
   (p input offs = Some (Success off v) \<longrightarrow> off \<noteq> int (length input) \<longrightarrow>
      complete p input offs = Some (Failure off [js ''end of input''] False)) \<and>
   (p input offs = Some (Failure off e f) \<longrightarrow> complete p input offs = Some (Failure off e f))"
proof -
  have s: "complete p input offs =
      (if off' = int (length input) then Some (Success off' v')
       else Some (Failure off' [js ''end of input''] False))"
    if "p input offs = Some (Success off' v')" for off' v'
    using that by (simp add: complete_def then_p_def end_p_def first_def)
  have f: "complete p input offs = Some (Failure off' e' f')"
    if "p input offs = Some (Failure off' e' f')" for off' e' f'
    using that by (simp add: complete_def then_p_def)
  have n: "complete p input offs = None" if "p input offs = None"
    using that by (simp add: complete_def then_p_def)
  have iff: "(\<exists>off v. complete p input offs = Some (Success off v)) \<longleftrightarrow>
      (\<exists>v. p input offs = Some (Success (int (length input)) v))"
  proof (cases "p input offs")
    case None
    with n show ?thesis by simp
  next
    case (Some r)
    then show ?thesis
    proof (cases r)
      case (Success off' v')
      with Some s [of off' v'] show ?thesis by auto
    next
      case (Failure off' e' f')
      with Some f [of off' e' f'] show ?thesis by auto
    qed
  qed
  from s f iff show ?thesis by auto
qed

text \<open>The theorem at \<open>complete(token("a"))\<close> on \<open>"a"\<close>, \<open>"aa"\<close> and \<open>"b"\<close>.\<close>

theorem complete_cases_witness:
  "complete (token (js ''a'')) (js ''a'') 0 = Some (Success 1 (Str (js ''a''))) \<and>
   complete (token (js ''a'')) (js ''aa'') 0 = Some (Failure 1 [js ''end of input''] False) \<and>
   complete (token (js ''a'')) (js ''b'') 0 = Some (Failure 0 [js ''a''] False)"
proof -
  have l1: "(1::int) = int (length (js ''a''))" by (simp add: js_def)
  have l2: "(1::int) \<noteq> int (length (js ''aa''))" by (simp add: js_def)
  from complete_cases [of "token (js ''a'')" "js ''a''" 0 1 "Str (js ''a'')"] token_a_a l1
  have 1: "complete (token (js ''a'')) (js ''a'') 0 = Some (Success 1 (Str (js ''a'')))" by blast
  from complete_cases [of "token (js ''a'')" "js ''aa''" 0 1 "Str (js ''a'')"] token_a_aa l2
  have 2: "complete (token (js ''a'')) (js ''aa'') 0 = Some (Failure 1 [js ''end of input''] False)"
    by blast
  from complete_cases [of "token (js ''a'')" "js ''b''" 0 0 _ "[js ''a'']" False] token_a_b
  have 3: "complete (token (js ''a'')) (js ''b'') 0 = Some (Failure 0 [js ''a''] False)" by blast
  from 1 2 3 show ?thesis by simp
qed

subsection \<open>The captured variable of \<open>or\<close>\<close>

lemma or_loop_running:
  assumes "map (\<lambda>p. p input offs) ps = map (\<lambda>f. Some (Failure (fst f) (snd f) False)) fs"
  shows "\<exists>x'. or_loop ps expdo input offs (Some (m, x, False))
           = Some (Inr (Some (Max (insert m (set (map fst fs))), x', False))) \<and>
         (expdo = None \<longrightarrow>
            x' = (if Max (insert m (set (map fst fs))) = m then x else []) @
                 concat (map snd (filter (\<lambda>f. fst f = Max (insert m (set (map fst fs)))) fs)))"
  using assms
proof (induction fs arbitrary: ps m x)
  case Nil
  then show ?case by simp
next
  case (Cons f fs)
  then obtain p ps' where ps: "ps = p # ps'" by (cases ps) auto
  obtain off e where f: "f = (off, e)" by (cases f)
  from Cons.prems ps f have p: "p input offs = Some (Failure off e False)"
    and rest: "map (\<lambda>p. p input offs) ps' = map (\<lambda>f. Some (Failure (fst f) (snd f) False)) fs"
    by simp_all
  let ?S = "set (map fst fs)"
  have fin: "finite ?S" by simp
  consider (gt) "off > m" | (eq) "off = m" | (lt) "off < m" by linarith
  then show ?case
  proof cases
    case gt
    have ge: "off \<le> Max (insert off ?S)" by (rule Max_ge) simp_all
    have "Max (insert m (insert off ?S)) = max m (Max (insert off ?S))"
      by (rule Max_insert) simp_all
    also have "\<dots> = Max (insert off ?S)"
      by (rule max_absorb2) (use ge gt in linarith)
    finally have M: "Max (insert m (set (map fst (f # fs)))) = Max (insert off ?S)"
      using f by simp
    from ge gt have ne: "Max (insert off ?S) \<noteq> m" by linarith
    from Cons.IH [OF rest, of off e] obtain x' where
      x': "or_loop ps' expdo input offs (Some (off, e, False))
             = Some (Inr (Some (Max (insert off ?S), x', False)))"
      "expdo = None \<longrightarrow> x' = (if Max (insert off ?S) = off then e else []) @
          concat (map snd (filter (\<lambda>f. fst f = Max (insert off ?S)) fs))"
      by blast
    from x' p gt ps f M ne show ?thesis by (auto simp: Let_def)
  next
    case eq
    have M: "Max (insert m (set (map fst (f # fs)))) = Max (insert m ?S)"
      using eq f by simp
    show ?thesis
    proof (cases expdo)
      case None
      from Cons.IH [OF rest, of m "x @ e"] obtain x' where
        x': "or_loop ps' expdo input offs (Some (m, x @ e, False))
               = Some (Inr (Some (Max (insert m ?S), x', False)))"
        "expdo = None \<longrightarrow> x' = (if Max (insert m ?S) = m then x @ e else []) @
            concat (map snd (filter (\<lambda>f. fst f = Max (insert m ?S)) fs))"
        by blast
      from x' p eq ps f M None show ?thesis by (auto simp: Let_def)
    next
      case (Some e0)
      from Cons.IH [OF rest, of m x] obtain x' where
        x': "or_loop ps' expdo input offs (Some (m, x, False))
               = Some (Inr (Some (Max (insert m ?S), x', False)))"
        by blast
      from x' p eq ps f M Some show ?thesis by (auto simp: Let_def)
    qed
  next
    case lt
    have ge: "m \<le> Max (insert m ?S)" by (rule Max_ge) simp_all
    have "Max (insert off (insert m ?S)) = max off (Max (insert m ?S))"
      by (rule Max_insert) simp_all
    also have "\<dots> = Max (insert m ?S)"
      by (rule max_absorb2) (use ge lt in linarith)
    finally have M: "Max (insert m (set (map fst (f # fs)))) = Max (insert m ?S)"
      using f by (simp add: insert_commute [of m off])
    from ge lt have ne: "Max (insert m ?S) \<noteq> off" by linarith
    from Cons.IH [OF rest, of m x] obtain x' where
      x': "or_loop ps' expdo input offs (Some (m, x, False))
             = Some (Inr (Some (Max (insert m ?S), x', False)))"
      "expdo = None \<longrightarrow> x' = (if Max (insert m ?S) = m then x else []) @
          concat (map snd (filter (\<lambda>f. fst f = Max (insert m ?S)) fs))"
      by blast
    from x' p lt ps f M ne show ?thesis by (auto simp: Let_def)
  qed
qed

text \<open>
  Within one call, with \<open>expdo\<close> the value that the captured variable holds when the
  parser is called: when every branch fails non-fatally, \<open>or\<close> returns the aggregate
  failure and leaves its expected list in the variable.
\<close>

lemma or_call_aggregates:
  assumes "map (\<lambda>p. p input offs) ps = map (\<lambda>f. Some (Failure (fst f) (snd f) False)) fs"
  shows "or_call ps expdo input offs
           = Some (aggregate offs expdo fs, Some (expected (aggregate offs expdo fs)))"
proof (cases fs)
  case Nil
  with assms show ?thesis by (simp add: or_call_def aggregate_def Let_def split: option.splits)
next
  case (Cons f fs')
  with assms obtain p ps' where ps: "ps = p # ps'" by (cases ps) auto
  obtain off e where f: "f = (off, e)" by (cases f)
  from assms ps f Cons have p: "p input offs = Some (Failure off e False)"
    and rest: "map (\<lambda>p. p input offs) ps' = map (\<lambda>f. Some (Failure (fst f) (snd f) False)) fs'"
    by simp_all
  let ?M = "Max (insert off (set (map fst fs')))"
  from or_loop_running [OF rest, of expdo off e] obtain x' where
    x': "or_loop ps' expdo input offs (Some (off, e, False)) = Some (Inr (Some (?M, x', False)))"
    "expdo = None \<longrightarrow> x' = (if ?M = off then e else []) @
        concat (map snd (filter (\<lambda>f. fst f = ?M) fs'))"
    by blast
  have M: "furthest fs = ?M" using Cons f by (simp add: furthest_def)
  from p ps x'(1) have loop: "or_loop ps expdo input offs None = Some (Inr (Some (?M, x', False)))"
    by simp
  show ?thesis
  proof (cases expdo)
    case None
    with x'(2) have "x' = concat (map snd (filter (\<lambda>f. fst f = furthest fs) fs))"
      using Cons f M by simp
    with loop None Cons M show ?thesis by (simp add: or_call_def aggregate_def Let_def split: option.splits)
  next
    case (Some e0)
    with loop Cons M show ?thesis by (simp add: or_call_def aggregate_def Let_def split: option.splits)
  qed
qed

lemma or_aggregates:
  assumes "map (\<lambda>p. p input offs) ps = map (\<lambda>f. Some (Failure (fst f) (snd f) False)) fs"
  shows "or_p ps expdo input offs = Some (aggregate offs expdo fs)"
  by (simp add: or_p_def or_call_aggregates [OF assms])

lemma tok_evals:
  "token (js ''a'') (js ''x'') 0 = Some (Failure 0 [js ''a''] False)"
  "token (js ''b'') (js ''x'') 0 = Some (Failure 0 [js ''b''] False)"
  "token (js ''a'') (js ''bx'') 0 = Some (Failure 0 [js ''a''] False)"
  "token (js ''b'') (js ''bx'') 0 = Some (Success 1 (Str (js ''b'')))"
  "token (js ''c'') (js ''bx'') 1 = Some (Failure 1 [js ''c''] False)"
  by (simp_all add: token_def slice_def js_def)

text \<open>
  C1. The parser \<^verbatim>\<open>or([token('a'), then(token('b'), token('c'), second)])\<close> is called
  twice. The first call, on \<open>"x"\<close>, fails at offset 0 with \<open>["a", "b"]\<close> and leaves that
  list in the captured variable. The second call, on \<open>"bx"\<close>, finds the variable set:
  its furthest failure is the one of the second branch, at offset 1 with \<open>["c"]\<close>, but
  the failure it returns carries \<open>["a", "b"]\<close>. A parser that was just built returns
  \<open>["c"]\<close> on the same input (third conjunct).
\<close>

theorem or_reused_stale_expected:
  "or_call ab_or_bc None (js ''x'') 0 =
     Some (Failure 0 [js ''a'', js ''b''] False, Some [js ''a'', js ''b'']) \<and>
   or_call ab_or_bc (Some [js ''a'', js ''b'']) (js ''bx'') 0 =
     Some (Failure 1 [js ''a'', js ''b''] False, Some [js ''a'', js ''b'']) \<and>
   or_call ab_or_bc None (js ''bx'') 0 = Some (Failure 1 [js ''c''] False, Some [js ''c''])"
  by (simp add: or_call_def ab_or_bc_def then_p_def tok_evals Let_def)

subsection \<open>Fatal failures\<close>

lemma never_fatalI:
  "(\<And>input offs off e. p input offs = Some (Failure off e True) \<Longrightarrow> False) \<Longrightarrow> never_fatal p"
  by (auto simp: never_fatal_def)

lemma never_fatalD: "never_fatal p \<Longrightarrow> p input offs = Some (Failure off e f) \<Longrightarrow> f = False"
  by (cases f) (auto simp: never_fatal_def)

lemma nf_token: "never_fatal (token tok)"
  by (simp add: never_fatal_def token_def Let_def)

lemma nf_codepoint: "never_fatal (codepoint isMatch expd)"
  by (simp add: never_fatal_def codepoint_def split: option.splits)

lemma nf_codepoints: "never_fatal (codepoints isMatch expdo)"
  by (simp add: never_fatal_def codepoints_def Let_def split: option.splits)

lemma nf_range: "range_p a b e = Some p \<Longrightarrow> never_fatal p"
  by (auto simp: range_p_def nf_codepoint split: option.splits)

lemma skipChars_loop_not_fatal: "skipChars_loop input offs i \<noteq> Failure off e True"
proof (induction input offs i rule: skipChars_loop.induct)
  case (1 input offs i)
  then show ?case
    by (subst skipChars_loop.simps) (simp split: option.splits)
qed

lemma nf_skipChars: "never_fatal (skipChars n)"
  by (simp add: never_fatal_def skipChars_def skipChars_loop_not_fatal)

lemma nf_start: "never_fatal start"
  by (simp add: never_fatal_def start_def)

lemma nf_end: "never_fatal end_p"
  by (simp add: never_fatal_def end_p_def)

lemma nf_map: "never_fatal p \<Longrightarrow> never_fatal (map_p p f)"
  by (rule never_fatalI)
     (auto simp: map_p_def split: bind_splits ParseResult.splits dest: never_fatalD)

lemma nf_filter: "never_fatal p \<Longrightarrow> ftl \<noteq> Some True \<Longrightarrow> never_fatal (filter_p p pred expd ftl)"
  by (rule never_fatalI)
     (auto simp: filter_p_def split: bind_splits ParseResult.splits option.splits if_splits
           dest: never_fatalD)

lemma nf_optional: "never_fatal p \<Longrightarrow> never_fatal (optional p)"
  by (rule never_fatalI)
     (auto simp: optional_def split: bind_splits ParseResult.splits if_splits dest: never_fatalD)

lemma nf_filterUndefined: "never_fatal p \<Longrightarrow> never_fatal (filterUndefined p)"
  by (rule never_fatalI)
     (auto simp: filterUndefined_def split: bind_splits ParseResult.splits jsval.splits
           dest: never_fatalD)

lemma nf_then: "never_fatal p \<Longrightarrow> never_fatal q \<Longrightarrow> never_fatal (then_p p q join)"
  by (rule never_fatalI)
     (auto simp: then_p_def split: bind_splits ParseResult.splits dest: never_fatalD)

lemma nf_recognize: "never_fatal p \<Longrightarrow> never_fatal (recognize p)"
  by (rule never_fatalI)
     (auto simp: recognize_def split: bind_splits ParseResult.splits dest: never_fatalD)

lemma nf_peek: "never_fatal p \<Longrightarrow> never_fatal (peek p)"
  by (rule never_fatalI)
     (auto simp: peek_def split: bind_splits ParseResult.splits dest: never_fatalD)

lemma nf_not: "never_fatal (not_p p expd)"
  by (rule never_fatalI)
     (auto simp: not_p_def split: bind_splits ParseResult.splits)

lemma nf_dispatch:
  assumes "\<forall>cp q. mapping cp = Some q \<longrightarrow> never_fatal q"
      and "\<forall>q. otherwise = Some q \<longrightarrow> never_fatal q"
  shows "never_fatal (dispatch mapping otherwise extraOffset expd)"
  using assms
  by (intro never_fatalI)
     (auto simp: dispatch_def split: option.splits dest: never_fatalD)

lemma or_loop_not_fatal:
  assumes "\<forall>p\<in>set ps. never_fatal p"
      and "\<forall>lo lx lf. le = Some (lo, lx, lf) \<longrightarrow> \<not> lf"
      and "or_loop ps expdo input offs le = Some x"
  shows "case x of Inl r \<Rightarrow> (\<forall>off e. r \<noteq> Failure off e True)
                 | Inr le' \<Rightarrow> (\<forall>lo lx lf. le' = Some (lo, lx, lf) \<longrightarrow> \<not> lf)"
  using assms
proof (induction ps arbitrary: le)
  case Nil
  then show ?case by auto
next
  case (Cons p ps)
  from Cons.prems(3) obtain r where r: "p input offs = Some r"
    by (auto simp: bind_eq_Some_conv)
  show ?case
  proof (cases r)
    case (Success off v)
    with r Cons.prems(3) show ?thesis by auto
  next
    case (Failure roff rexp rfatal)
    from Cons.prems(1) r Failure have nf: "rfatal = False" by (auto dest: never_fatalD)
    let ?le' = "(case le of
              None \<Rightarrow> Some (roff, rexp, False)
            | Some (loff, lexp, lfatal) \<Rightarrow>
                if roff > loff then Some (roff, rexp, False)
                else if roff = loff \<and> expdo = None then Some (loff, lexp @ rexp, lfatal)
                else le)"
    have le': "\<forall>lo lx lf. ?le' = Some (lo, lx, lf) \<longrightarrow> \<not> lf"
      using Cons.prems(2) by (auto split: option.splits if_splits)
    from Cons.prems(3) r Failure nf have "or_loop ps expdo input offs ?le' = Some x"
      by (simp add: Let_def)
    from Cons.IH [OF _ le' this] Cons.prems(1) show ?thesis by simp
  qed
qed

lemma nf_or:
  assumes "\<forall>p\<in>set ps. never_fatal p"
  shows "never_fatal (or_p ps expdo)"
proof (rule never_fatalI)
  fix input offs off e
  assume "or_p ps expdo input offs = Some (Failure off e True)"
  then obtain x where x: "or_loop ps expdo input offs None = Some x"
    and res: "(case x of
       Inl res \<Rightarrow> Some (res, expdo)
     | Inr lastError \<Rightarrow>
         let expd' = (case expdo of
                       Some e \<Rightarrow> e
                     | None \<Rightarrow> (case lastError of Some (_, lexp, _) \<Rightarrow> lexp | None \<Rightarrow> []))
         in Some (case lastError of
                    Some (loff, _, lfatal) \<Rightarrow> Failure loff expd' lfatal
                  | None \<Rightarrow> error offs expd' False,
                  Some expd')) = Some (Failure off e True, snd (the (or_call ps expdo input offs)))"
    by (auto simp: or_p_def or_call_def bind_eq_Some_conv)
  from or_loop_not_fatal [OF assms _ x]
  have "case x of Inl r \<Rightarrow> (\<forall>off e. r \<noteq> Failure off e True)
                 | Inr le' \<Rightarrow> (\<forall>lo lx lf. le' = Some (lo, lx, lf) \<longrightarrow> \<not> lf)" by simp
  with res show False
    by (cases x) (auto simp: Let_def split: option.splits)
qed

lemma star_loop_not_fatal:
  assumes "star_loop p input ts n = Some r"
  shows "never_fatal p \<longrightarrow> (\<forall>off e. r \<noteq> Failure off e True)"
proof (rule star_loop.raw_induct
    [where P = "\<lambda>p i t m r. never_fatal p \<longrightarrow> (\<forall>off e. r \<noteq> Failure off e True)", OF _ assms])
  fix loop parser input ts nextOffset y
  assume IH: "\<And>parser input ts nextOffset y.
      loop parser input ts nextOffset = Some y \<Longrightarrow>
      never_fatal parser \<longrightarrow> (\<forall>off e. y \<noteq> Failure off e True)"
    and body: "parser input nextOffset \<bind>
      (\<lambda>res. case res of
         Success roff v \<Rightarrow>
           if roff = nextOffset then Some (okWithValue nextOffset (Arr (ts @ [v])))
           else loop parser input (ts @ [v]) roff
       | Failure x xa f \<Rightarrow> if f then Some res else Some (okWithValue nextOffset (Arr ts))) = Some y"
  show "never_fatal parser \<longrightarrow> (\<forall>off e. y \<noteq> Failure off e True)"
  proof
    assume nf: "never_fatal parser"
    from body obtain res where res: "parser input nextOffset = Some res" 
      by (auto simp: bind_eq_Some_conv)
    show "\<forall>off e. y \<noteq> Failure off e True"
    proof (cases res)
      case (Failure off e f)
      with nf res have "\<not> f" by (auto dest: never_fatalD)
      with body res Failure show ?thesis by auto
    next
      case (Success roff v)
      show ?thesis
      proof (cases "roff = nextOffset")
        case True
        with body res Success show ?thesis by auto
      next
        case False
        with body res Success have "loop parser input (ts @ [v]) roff = Some y" by simp
        from IH [OF this] nf show ?thesis by simp
      qed
    qed
  qed
qed

lemma nf_star: "never_fatal p \<Longrightarrow> never_fatal (star p)"
  by (rule never_fatalI) (auto simp: star_def dest: star_loop_not_fatal)

lemma starConsumed_loop_not_fatal:
  assumes "starConsumed_loop p input n = Some r"
  shows "never_fatal p \<longrightarrow> (\<forall>off e. r \<noteq> Failure off e True)"
proof (rule starConsumed_loop.raw_induct
    [where P = "\<lambda>p i m r. never_fatal p \<longrightarrow> (\<forall>off e. r \<noteq> Failure off e True)", OF _ assms])
  fix loop parser input nextOffset y
  assume IH: "\<And>parser input nextOffset y.
      loop parser input nextOffset = Some y \<Longrightarrow>
      never_fatal parser \<longrightarrow> (\<forall>off e. y \<noteq> Failure off e True)"
    and body: "parser input nextOffset \<bind>
      (\<lambda>res. case res of
         Success roff v \<Rightarrow>
           if roff = nextOffset then Some (ok nextOffset)
           else loop parser input roff
       | Failure x xa f \<Rightarrow> if f then Some res else Some (ok nextOffset)) = Some y"
  show "never_fatal parser \<longrightarrow> (\<forall>off e. y \<noteq> Failure off e True)"
  proof
    assume nf: "never_fatal parser"
    from body obtain res where res: "parser input nextOffset = Some res" 
      by (auto simp: bind_eq_Some_conv)
    show "\<forall>off e. y \<noteq> Failure off e True"
    proof (cases res)
      case (Failure off e f)
      with nf res have "\<not> f" by (auto dest: never_fatalD)
      with body res Failure show ?thesis by auto
    next
      case (Success roff v)
      show ?thesis
      proof (cases "roff = nextOffset")
        case True
        with body res Success show ?thesis by auto
      next
        case False
        with body res Success have "loop parser input roff = Some y" by simp
        from IH [OF this] nf show ?thesis by simp
      qed
    qed
  qed
qed

lemma nf_starConsumed: "never_fatal p \<Longrightarrow> never_fatal (starConsumed p)"
  by (rule never_fatalI) (auto simp: starConsumed_def dest: starConsumed_loop_not_fatal)

lemma built_never_fatal: "built False p \<Longrightarrow> never_fatal p"
proof (induction rule: built.induct)
  case (b_dispatch mapping otherwise extraOffset expd)
  then show ?case by (intro nf_dispatch) auto
next
  case (b_filter p ftl pred expd)
  then show ?case by (intro nf_filter) auto
qed (simp_all add: nf_token nf_codepoint nf_codepoints nf_range nf_skipChars nf_start nf_end
      nf_map nf_or nf_optional nf_star nf_starConsumed nf_filterUndefined nf_then
      nf_recognize nf_peek nf_not
      consume_def plus_p_def plusConsumed_def preceded_def followed_def delimited_def
      except_def complete_def)

lemma skipCharsUtf8_loop_not_fatal: "skipCharsUtf8_loop input offs i \<noteq> Inr (Failure off e True)"
proof (induction input offs i rule: skipCharsUtf8_loop.induct)
  case (1 input offs i)
  then show ?case
    by (subst skipCharsUtf8_loop.simps) (simp split: option.splits sum.splits)
qed

lemma byte_primitives_not_fatal:
  "tokenUtf8 tok binput boffs \<noteq> Some (Inr (Failure off e True))"
  "codepointUtf8 isMatch expd binput boffs \<noteq> Some (Inr (Failure off e True))"
  "codepointsUtf8 isMatch expdo binput boffs \<noteq> Some (Inr (Failure off e True))"
  "skipCharsUtf8 n binput boffs \<noteq> Some (Inr (Failure off e True))"
     apply (simp add: tokenUtf8_def split: sum.splits option.splits)
    apply (simp add: codepointUtf8_def split: sum.splits option.splits)
   apply (auto simp: codepointsUtf8_def split: bind_splits sum.splits option.splits if_splits)[1]
  apply (simp add: skipCharsUtf8_def skipCharsUtf8_loop_not_fatal)
  done

lemma rangeUtf8_not_fatal:
  "rangeUtf8 a b expdo = Some rp \<Longrightarrow> rp binput boffs \<noteq> Some (Inr (Failure off e True))"
  by (auto simp: rangeUtf8_def byte_primitives_not_fatal split: option.splits)

text \<open>
  C5 as stated fails twice: \<open>filter\<close> called with \<open>fatal = true\<close> creates a fatal failure
  from a success of its parser, and \<open>not\<close> turns a fatal failure of its parser into a
  success.
\<close>

theorem fatal_created_or_converted_counterexample:
  "filter_p (token (js ''a'')) reject [js ''x''] (Some True) (js ''a'') 0
     = Some (Failure 0 [js ''x''] True) \<and>
   token (js ''a'') (js ''a'') 0 = Some (Success 1 (Str (js ''a''))) \<and>
   cut_p (token (js ''a'')) (js ''b'') 0 = Some (Failure 0 [js ''a''] True) \<and>
   not_p (cut_p (token (js ''a''))) [js ''y''] (js ''b'') 0 = Some (Success 0 Undefined)"
  by (simp add: filter_p_def cut_p_def not_p_def token_def slice_def js_def reject_def)

text \<open>
  C5, amended. A parser built from the primitives and combinators of
  parser-combinators.ts without \<open>cut\<close>, without \<open>delimited\<close> with
  \<open>cutAfterOpen = true\<close> and without \<open>filter\<close> with \<open>fatal = true\<close> never returns a
  fatal failure, and neither do the byte-oriented primitives \<open>tokenUtf8\<close>,
  \<open>codepointUtf8\<close>, \<open>codepointsUtf8\<close>, \<open>rangeUtf8\<close> and \<open>skipCharsUtf8\<close>: no
  primitive and no other combinator creates one. A fatal failure \<open>F\<close> that a
  sub-parser returns, at whichever of the calls the combinator makes, is returned
  unchanged:
  by \<open>map\<close>, \<open>consume\<close>, \<open>filter\<close>, \<open>filterUndefined\<close>, \<open>optional\<close>, \<open>recognize\<close>,
  \<open>peek\<close>, \<open>cut\<close> and \<open>complete\<close>, which call their parser once;
  by \<open>then\<close>, \<open>preceded\<close>, \<open>followed\<close> and \<open>delimited\<close>, from their first parser, from
  their second, called where the first succeeded, and by \<open>delimited\<close> from its third,
  called where the second succeeded;
  by \<open>except\<close> from its first parser, called when the second failed;
  by \<open>dispatch\<close> and \<open>dispatchUtf8\<close>, from the parser that the mapping gives for the
  code point and from \<open>otherwise\<close>;
  by \<open>or\<close> from any of its parsers, when those before it failed non-fatally;
  by \<open>star\<close> and \<open>starConsumed\<close> from the call of their parser in any round of the
  loop, the first or a later one, and likewise by \<open>plus\<close> and \<open>plusConsumed\<close>, from
  the first call of their parser and from any round of the loop that follows it.
  Only \<open>not\<close> turns \<open>F\<close> into a success, and \<open>except\<close>, through \<open>not\<close>, then gives
  the result of its first parser.
\<close>

theorem fatal_origin_and_propagation:
  assumes F: "F = Failure off e True"
  shows
  "(built False p \<longrightarrow> p input offs \<noteq> Some F) \<and>
   tokenUtf8 tok binput boffs \<noteq> Some (Inr F) \<and>
   codepointUtf8 isMatch expd binput boffs \<noteq> Some (Inr F) \<and>
   codepointsUtf8 isMatch expdo binput boffs \<noteq> Some (Inr F) \<and>
   (rangeUtf8 firstCodePoint lastCodePoint expdo = Some rp \<longrightarrow> rp binput boffs \<noteq> Some (Inr F)) \<and>
   skipCharsUtf8 n binput boffs \<noteq> Some (Inr F) \<and>
   (q input offs = Some F \<longrightarrow>
      map_p q f input offs = Some F \<and>
      consume q input offs = Some F \<and>
      filter_p q pred expd ftl input offs = Some F \<and>
      filterUndefined q input offs = Some F \<and>
      optional q input offs = Some F \<and>
      recognize q input offs = Some F \<and>
      peek q input offs = Some F \<and>
      cut_p q input offs = Some F \<and>
      complete q input offs = Some F \<and>
      then_p q r join input offs = Some F \<and>
      preceded q r input offs = Some F \<and>
      followed q r input offs = Some F \<and>
      delimited q r s cutAfterOpen input offs = Some F \<and>
      plus_p q input offs = Some F \<and>
      plusConsumed q input offs = Some F \<and>
      not_p q expd input offs = Some (Success offs Undefined) \<and>
      except r q expd input offs = r input offs) \<and>
   (q1 input offs = Some (Success off1 v1) \<and> q input off1 = Some F \<longrightarrow>
      then_p q1 q join input offs = Some F \<and>
      preceded q1 q input offs = Some F \<and>
      followed q1 q input offs = Some F \<and>
      delimited q1 q s cutAfterOpen input offs = Some F) \<and>
   (q1 input offs = Some (Success off1 v1) \<and> q2 input off1 = Some (Success off2 v2) \<and>
    q input off2 = Some F \<longrightarrow>
      delimited q1 q2 q cutAfterOpen input offs = Some F) \<and>
   (x input offs = Some (Failure xoff xe xf) \<and> q input offs = Some F \<longrightarrow>
      except q x expd input offs = Some F) \<and>
   (codePointAt input (offs + extraOffset) = Some cp \<and> mapping cp = Some q \<and>
    q input offs = Some F \<longrightarrow>
      dispatch mapping otherwise extraOffset expd input offs = Some F) \<and>
   (codePointAt input (offs + extraOffset) = Some cp \<and> mapping cp = None \<and>
    q input offs = Some F \<longrightarrow>
      dispatch mapping (Some q) extraOffset expd input offs = Some F) \<and>
   (getUtf8Codepoint binput (boffs + extraOffset) = Inr (Some cp) \<and> bmapping cp = Some bq \<and>
    bq binput boffs = Some (Inr F) \<longrightarrow>
      dispatchUtf8 bmapping botherwise extraOffset expd binput boffs = Some (Inr F)) \<and>
   (getUtf8Codepoint binput (boffs + extraOffset) = Inr (Some cp) \<and> bmapping cp = None \<and>
    bq binput boffs = Some (Inr F) \<longrightarrow>
      dispatchUtf8 bmapping (Some bq) extraOffset expd binput boffs = Some (Inr F)) \<and>
   ((\<forall>b\<in>set ps1. \<exists>boff be. b input offs = Some (Failure boff be False)) \<and>
    q input offs = Some F \<longrightarrow>
      or_p (ps1 @ q # ps2) expdo input offs = Some F) \<and>
   (rounds q input offs steps \<and> q input (reached offs steps) = Some F \<longrightarrow>
      star q input offs = Some F \<and> starConsumed q input offs = Some F) \<and>
   (q input offs = Some (Success off1 v1) \<and> rounds q input off1 steps \<and>
    q input (reached off1 steps) = Some F \<longrightarrow>
      plus_p q input offs = Some F \<and> plusConsumed q input offs = Some F)"
proof (intro conjI impI; (elim conjE)?)
  assume "built False p"
  then have "never_fatal p" by (rule built_never_fatal)
  then show "p input offs \<noteq> Some F" by (simp add: never_fatal_def F)
next
  show "tokenUtf8 tok binput boffs \<noteq> Some (Inr F)" unfolding F by (rule byte_primitives_not_fatal)
  show "codepointUtf8 isMatch expd binput boffs \<noteq> Some (Inr F)"
    unfolding F by (rule byte_primitives_not_fatal)
  show "codepointsUtf8 isMatch expdo binput boffs \<noteq> Some (Inr F)"
    unfolding F by (rule byte_primitives_not_fatal)
  show "skipCharsUtf8 n binput boffs \<noteq> Some (Inr F)"
    unfolding F by (rule byte_primitives_not_fatal)
next
  assume "rangeUtf8 firstCodePoint lastCodePoint expdo = Some rp"
  then show "rp binput boffs \<noteq> Some (Inr F)" unfolding F by (rule rangeUtf8_not_fatal)
next
  assume q: "q input offs = Some F"
  show "map_p q f input offs = Some F" using q by (simp add: map_p_def F)
  show "consume q input offs = Some F" using q by (simp add: consume_def map_p_def F)
  show "filter_p q pred expd ftl input offs = Some F" using q by (simp add: filter_p_def F)
  show "filterUndefined q input offs = Some F" using q by (simp add: filterUndefined_def F)
  show "optional q input offs = Some F" using q by (simp add: optional_def F)
  show "recognize q input offs = Some F" using q by (simp add: recognize_def F)
  show "peek q input offs = Some F" using q by (simp add: peek_def F)
  show "cut_p q input offs = Some F" using q by (simp add: cut_p_def F)
  show "complete q input offs = Some F" using q by (simp add: complete_def then_p_def F)
  show "then_p q r join input offs = Some F" using q by (simp add: then_p_def F)
  show "preceded q r input offs = Some F" using q by (simp add: preceded_def then_p_def F)
  show "followed q r input offs = Some F" using q by (simp add: followed_def then_p_def F)
  show "delimited q r s cutAfterOpen input offs = Some F"
    using q by (simp add: delimited_def preceded_def then_p_def Let_def F)
  show "plus_p q input offs = Some F" using q by (simp add: plus_p_def then_p_def F)
  show "plusConsumed q input offs = Some F" using q by (simp add: plusConsumed_def then_p_def F)
  show "not_p q expd input offs = Some (Success offs Undefined)" using q by (simp add: not_p_def F)
  show "except r q expd input offs = r input offs"
  proof (cases "r input offs")
    case None
    with q show ?thesis by (simp add: except_def preceded_def then_p_def not_p_def F)
  next
    case (Some y)
    with q show ?thesis
      by (cases y) (simp_all add: except_def preceded_def then_p_def not_p_def second_def F)
  qed
next
  assume a: "q1 input offs = Some (Success off1 v1)" "q input off1 = Some F"
  show "then_p q1 q join input offs = Some F" using a by (simp add: then_p_def F)
  show "preceded q1 q input offs = Some F" using a by (simp add: preceded_def then_p_def F)
  show "followed q1 q input offs = Some F" using a by (simp add: followed_def then_p_def F)
  show "delimited q1 q s cutAfterOpen input offs = Some F"
    using a by (simp add: delimited_def preceded_def followed_def cut_p_def then_p_def F)
next
  assume "q1 input offs = Some (Success off1 v1)" "q2 input off1 = Some (Success off2 v2)"
    "q input off2 = Some F"
  then show "delimited q1 q2 q cutAfterOpen input offs = Some F"
    by (simp add: delimited_def preceded_def followed_def cut_p_def then_p_def F)
next
  assume "x input offs = Some (Failure xoff xe xf)" "q input offs = Some F"
  then show "except q x expd input offs = Some F"
    by (simp add: except_def preceded_def then_p_def not_p_def F)
next
  assume "codePointAt input (offs + extraOffset) = Some cp" "mapping cp = Some q"
    "q input offs = Some F"
  then show "dispatch mapping otherwise extraOffset expd input offs = Some F"
    by (simp add: dispatch_def)
next
  assume "codePointAt input (offs + extraOffset) = Some cp" "mapping cp = None"
    "q input offs = Some F"
  then show "dispatch mapping (Some q) extraOffset expd input offs = Some F"
    by (simp add: dispatch_def)
next
  assume "getUtf8Codepoint binput (boffs + extraOffset) = Inr (Some cp)" "bmapping cp = Some bq"
    "bq binput boffs = Some (Inr F)"
  then show "dispatchUtf8 bmapping botherwise extraOffset expd binput boffs = Some (Inr F)"
    by (simp add: dispatchUtf8_def)
next
  assume "getUtf8Codepoint binput (boffs + extraOffset) = Inr (Some cp)" "bmapping cp = None"
    "bq binput boffs = Some (Inr F)"
  then show "dispatchUtf8 bmapping (Some bq) extraOffset expd binput boffs = Some (Inr F)"
    by (simp add: dispatchUtf8_def)
next
  assume "\<forall>b\<in>set ps1. \<exists>boff be. b input offs = Some (Failure boff be False)"
    and "q input offs = Some F"
  then show "or_p (ps1 @ q # ps2) expdo input offs = Some F"
    by (simp add: or_p_def or_call_def or_loop_fatal F)
next
  assume a: "rounds q input offs steps" "q input (reached offs steps) = Some F"
  show "star q input offs = Some F"
    using a by (simp add: star_def star_loop_rounds_fatal F)
  show "starConsumed q input offs = Some F"
    using a by (simp add: starConsumed_def starConsumed_loop_rounds_fatal F)
next
  assume a: "q input offs = Some (Success off1 v1)" "rounds q input off1 steps"
    "q input (reached off1 steps) = Some F"
  then have s: "star q input off1 = Some F" "starConsumed q input off1 = Some F"
    by (simp_all add: star_def starConsumed_def star_loop_rounds_fatal
          starConsumed_loop_rounds_fatal F)
  show "plus_p q input offs = Some F" using a(1) s by (simp add: plus_p_def then_p_def F)
  show "plusConsumed q input offs = Some F" using a(1) s by (simp add: plusConsumed_def then_p_def F)
qed

lemma cut_a_evals:
  "cut_p (token (js ''a'')) (js ''b'') 0 = Some (Failure 0 [js ''a''] True)"
  "cut_p (token (js ''a'')) (js ''b'') 1 = Some (Failure 1 [js ''a''] True)"
  "cut_p (token (js ''a'')) (js ''aaab'') 0 = Some (Success 1 (Str (js ''a'')))"
  "cut_p (token (js ''a'')) (js ''aaab'') 1 = Some (Success 2 (Str (js ''a'')))"
  "cut_p (token (js ''a'')) (js ''aaab'') 2 = Some (Success 3 (Str (js ''a'')))"
  "cut_p (token (js ''a'')) (js ''aaab'') 3 = Some (Failure 3 [js ''a''] True)"
  by (simp_all add: cut_p_def token_def slice_def js_def)

text \<open>
  The theorem at \<open>optional(token("a"))\<close>, built without the three forms; at the test of
  the repository for \<open>star\<close>, \<open>star(cut(token("a")))\<close> on \<open>"aaab"\<close>, where the fatal
  failure comes in the fourth round, at offset 3, and at \<open>starConsumed\<close>, \<open>plus\<close> and
  \<open>plusConsumed\<close> on the same input; and at the fatal failure of \<open>cut(token("a"))\<close> on
  the input \<open>"b"\<close>: in a later branch of \<open>or\<close>, under \<open>not\<close>, as the first parser of
  \<open>except\<close>, as \<open>otherwise\<close> of \<open>dispatch\<close> and of \<open>dispatchUtf8\<close> (there a parser
  that always fails fatally), as the second parser of \<open>then\<close>, \<open>preceded\<close>,
  \<open>followed\<close> and \<open>delimited\<close>, and, on \<open>"(ab"\<close>, as the third parser of
  \<open>delimited\<close>.
\<close>

theorem fatal_origin_and_propagation_witness:
  "built False (optional (token (js ''a''))) \<and>
   optional (token (js ''a'')) (js ''b'') 0 \<noteq> Some (Failure 0 [js ''a''] True) \<and>
   cut_p (token (js ''a'')) (js ''aaab'') 3 = Some (Failure 3 [js ''a''] True) \<and>
   star (cut_p (token (js ''a''))) (js ''aaab'') 0 = Some (Failure 3 [js ''a''] True) \<and>
   starConsumed (cut_p (token (js ''a''))) (js ''aaab'') 0 = Some (Failure 3 [js ''a''] True) \<and>
   plus_p (cut_p (token (js ''a''))) (js ''aaab'') 0 = Some (Failure 3 [js ''a''] True) \<and>
   plusConsumed (cut_p (token (js ''a''))) (js ''aaab'') 0 = Some (Failure 3 [js ''a''] True) \<and>
   or_p ([token (js ''c'')] @ cut_p (token (js ''a'')) # [token (js ''b'')]) None (js ''b'') 0
     = Some (Failure 0 [js ''a''] True) \<and>
   not_p (cut_p (token (js ''a''))) [] (js ''b'') 0 = Some (Success 0 Undefined) \<and>
   except (cut_p (token (js ''a''))) (token (js ''c'')) [] (js ''b'') 0
     = Some (Failure 0 [js ''a''] True) \<and>
   dispatch (\<lambda>cp. None) (Some (cut_p (token (js ''a'')))) 0 [] (js ''b'') 0
     = Some (Failure 0 [js ''a''] True) \<and>
   dispatchUtf8 (\<lambda>cp. None) (Some (\<lambda>i n. Some (Inr (Failure 0 [js ''a''] True)))) 0 [] [0x62] 0
     = Some (Inr (Failure 0 [js ''a''] True)) \<and>
   then_p (token (js ''b'')) (cut_p (token (js ''a''))) second (js ''b'') 0
     = Some (Failure 1 [js ''a''] True) \<and>
   preceded (token (js ''b'')) (cut_p (token (js ''a''))) (js ''b'') 0
     = Some (Failure 1 [js ''a''] True) \<and>
   followed (token (js ''b'')) (cut_p (token (js ''a''))) (js ''b'') 0
     = Some (Failure 1 [js ''a''] True) \<and>
   delimited (token (js ''b'')) (cut_p (token (js ''a''))) (token (js ''c'')) False (js ''b'') 0
     = Some (Failure 1 [js ''a''] True) \<and>
   delimited (token (js ''('')) (token (js ''a'')) (cut_p (token (js '')''))) False (js ''(ab'') 0
     = Some (Failure 2 [js '')''] True)"
proof -
  have b: "built False (optional (token (js ''a'')))" by (intro built.intros)
  have tc: "\<forall>b\<in>set [token (js ''c'')]. \<exists>boff be. b (js ''b'') 0 = Some (Failure boff be False)"
    "token (js ''c'') (js ''b'') 0 = Some (Failure 0 [js ''c''] False)"
    by (simp_all add: token_def slice_def js_def)
  have tb: "token (js ''b'') (js ''b'') 0 = Some (Success 1 (Str (js ''b'')))"
    by (simp add: token_def slice_def js_def)
  have cp: "codePointAt (js ''b'') (0 + 0) = Some 98"
    by (simp add: codePointAt_def js_def)
  have bcp: "getUtf8Codepoint [0x62] (0 + 0) = Inr (Some 98)"
    by (simp add: getUtf8Codepoint_def byteAt_def)
  have rs: "rounds (cut_p (token (js ''a''))) (js ''aaab'') 0
              [(1, Str (js ''a'')), (2, Str (js ''a'')), (3, Str (js ''a''))]"
    "rounds (cut_p (token (js ''a''))) (js ''aaab'') 1 [(2, Str (js ''a'')), (3, Str (js ''a''))]"
    by (simp_all add: cut_a_evals)
  have re: "reached 0 [(1, Str (js ''a'')), (2, Str (js ''a'')), (3::int, Str (js ''a''))] = 3"
    "reached 1 [(2, Str (js ''a'')), (3::int, Str (js ''a''))] = 3" by simp_all
  have par: "token (js ''('') (js ''(ab'') 0 = Some (Success 1 (Str (js ''('')))"
    "token (js ''a'') (js ''(ab'') 1 = Some (Success 2 (Str (js ''a'')))"
    "cut_p (token (js '')'')) (js ''(ab'') 2 = Some (Failure 2 [js '')''] True)"
    by (simp_all add: cut_p_def token_def slice_def js_def)
  note at_b = fatal_origin_and_propagation
    [where F = "Failure 0 [js ''a''] True" and off = 0 and e = "[js ''a'']"
       and p = "optional (token (js ''a''))" and input = "js ''b''" and offs = 0
       and q = "cut_p (token (js ''a''))" and ?ps1.0 = "[token (js ''c'')]"
       and ?ps2.0 = "[token (js ''b'')]" and expdo = None and expd = "[]"
       and x = "token (js ''c'')" and xoff = 0 and xe = "[js ''c'']" and xf = False
       and mapping = "\<lambda>cp. None" and cp = 98 and extraOffset = 0
       and bmapping = "\<lambda>cp. None" and binput = "[0x62]" and boffs = 0
       and bq = "\<lambda>i n. Some (Inr (Failure 0 [js ''a''] True))", OF refl]
  note second_stage = fatal_origin_and_propagation
    [where F = "Failure 1 [js ''a''] True" and off = 1 and e = "[js ''a'']"
       and input = "js ''b''" and offs = 0 and ?q1.0 = "token (js ''b'')" and ?off1.0 = 1
       and ?v1.0 = "Str (js ''b'')" and q = "cut_p (token (js ''a''))" and join = second
       and s = "token (js ''c'')" and cutAfterOpen = False, OF refl]
  note later_round = fatal_origin_and_propagation
    [where F = "Failure 3 [js ''a''] True" and off = 3 and e = "[js ''a'']"
       and input = "js ''aaab''" and offs = 0 and q = "cut_p (token (js ''a''))"
       and steps = "[(1, Str (js ''a'')), (2, Str (js ''a'')), (3, Str (js ''a''))]", OF refl]
  note later_round_plus = fatal_origin_and_propagation
    [where F = "Failure 3 [js ''a''] True" and off = 3 and e = "[js ''a'']"
       and input = "js ''aaab''" and offs = 0 and q = "cut_p (token (js ''a''))"
       and ?off1.0 = 1 and ?v1.0 = "Str (js ''a'')"
       and steps = "[(2, Str (js ''a'')), (3, Str (js ''a''))]", OF refl]
  note third_stage = fatal_origin_and_propagation
    [where F = "Failure 2 [js '')''] True" and off = 2 and e = "[js '')'']"
       and input = "js ''(ab''" and offs = 0 and ?q1.0 = "token (js ''('')" and ?off1.0 = 1
       and ?v1.0 = "Str (js ''('')" and ?q2.0 = "token (js ''a'')" and ?off2.0 = 2
       and ?v2.0 = "Str (js ''a'')" and q = "cut_p (token (js '')''))"
       and cutAfterOpen = False, OF refl]
  from at_b b cut_a_evals(1) tc cp bcp
  have 1: "optional (token (js ''a'')) (js ''b'') 0 \<noteq> Some (Failure 0 [js ''a''] True)"
    and 2: "or_p ([token (js ''c'')] @ cut_p (token (js ''a'')) # [token (js ''b'')]) None (js ''b'') 0
              = Some (Failure 0 [js ''a''] True)"
    and 3: "not_p (cut_p (token (js ''a''))) [] (js ''b'') 0 = Some (Success 0 Undefined)"
    and 4: "except (cut_p (token (js ''a''))) (token (js ''c'')) [] (js ''b'') 0
              = Some (Failure 0 [js ''a''] True)"
    and 5: "dispatch (\<lambda>cp. None) (Some (cut_p (token (js ''a'')))) 0 [] (js ''b'') 0
              = Some (Failure 0 [js ''a''] True)"
    and 15: "dispatchUtf8 (\<lambda>cp. None) (Some (\<lambda>i n. Some (Inr (Failure 0 [js ''a''] True)))) 0 []
               [0x62] 0 = Some (Inr (Failure 0 [js ''a''] True))"
    by simp_all
  from second_stage tb cut_a_evals(2)
  have 6: "then_p (token (js ''b'')) (cut_p (token (js ''a''))) second (js ''b'') 0
             = Some (Failure 1 [js ''a''] True)"
    and 7: "preceded (token (js ''b'')) (cut_p (token (js ''a''))) (js ''b'') 0
             = Some (Failure 1 [js ''a''] True)"
    and 8: "followed (token (js ''b'')) (cut_p (token (js ''a''))) (js ''b'') 0
             = Some (Failure 1 [js ''a''] True)"
    and 9: "delimited (token (js ''b'')) (cut_p (token (js ''a''))) (token (js ''c'')) False
              (js ''b'') 0 = Some (Failure 1 [js ''a''] True)"
    by simp_all
  from later_round rs(1) cut_a_evals(6) re
  have 10: "star (cut_p (token (js ''a''))) (js ''aaab'') 0 = Some (Failure 3 [js ''a''] True)"
    and 11: "starConsumed (cut_p (token (js ''a''))) (js ''aaab'') 0
               = Some (Failure 3 [js ''a''] True)"
    by simp_all
  from later_round_plus rs(2) cut_a_evals(3,6) re
  have 12: "plus_p (cut_p (token (js ''a''))) (js ''aaab'') 0 = Some (Failure 3 [js ''a''] True)"
    and 13: "plusConsumed (cut_p (token (js ''a''))) (js ''aaab'') 0
               = Some (Failure 3 [js ''a''] True)"
    by simp_all
  from third_stage par
  have 14: "delimited (token (js ''('')) (token (js ''a'')) (cut_p (token (js '')''))) False
              (js ''(ab'') 0 = Some (Failure 2 [js '')''] True)"
    by simp
  from b cut_a_evals(6) 1 2 3 4 5 15 6 7 8 9 10 11 12 13 14 show ?thesis by simp
qed

subsection \<open>Streaming and synchronous forms\<close>

lemma agreeE:
  assumes "agree x y"
  obtains (none) "x = None" "y = None"
    | (fail) off e f ys where "x = Some (Failure off e f)" "y = Some (ys, Failure off e f)"
    | (succ) off ys v' where "x = Some (Success off (Arr ys))" "y = Some (ys, Success off v')"
proof (cases "(x, y)" rule: agree.cases)
  case (3 off v ys r)
  with assms obtain v' where "r = Success off v'" by (cases r) auto
  with 3 assms succ show ?thesis by auto
qed (use assms in auto)

lemma agree_streaming: "agree (map_p p singleton input offs) (streaming p input offs)"
proof (cases "p input offs")
  case None
  then show ?thesis by (simp add: map_p_def streaming_def)
next
  case (Some r)
  then show ?thesis by (cases r) (simp_all add: map_p_def streaming_def singleton_def)
qed

lemma agree_then:
  assumes "\<And>n. agree (S1 input n) (I1 input n)" and "\<And>n. agree (S2 input n) (I2 input n)"
  shows "agree (then_p S1 S2 concat2 input offs) (streamingThen I1 I2 input offs)"
  using assms(1) [of offs]
proof (cases rule: agreeE)
  case none
  then show ?thesis by (simp add: then_p_def streamingThen_def)
next
  case (fail off e f ys)
  then show ?thesis by (simp add: then_p_def streamingThen_def)
next
  case (succ off1 ys1 v1)
  from assms(2) [of off1] show ?thesis
  proof (cases rule: agreeE)
    case none
    with succ show ?thesis by (simp add: then_p_def streamingThen_def)
  next
    case (fail off e f ys)
    with succ show ?thesis by (simp add: then_p_def streamingThen_def)
  next
    case (succ off2 ys2 v2)
    with \<open>S1 input offs = Some (Success off1 (Arr ys1))\<close> \<open>I1 input offs = Some (ys1, Success off1 v1)\<close>
    show ?thesis by (simp add: then_p_def streamingThen_def concat2_def spread_def)
  qed
qed

lemma agree_optional:
  assumes "\<And>n. agree (S input n) (I input n)"
  shows "agree (map_p (optional S) null_to_empty input offs) (streamingOptional I input offs)"
  using assms [of offs]
proof (cases rule: agreeE)
  case none
  then show ?thesis by (simp add: map_p_def optional_def streamingOptional_def)
next
  case (fail off e f ys)
  then show ?thesis
    by (cases f) (simp_all add: map_p_def optional_def streamingOptional_def null_to_empty_def)
next
  case (succ off ys v')
  then show ?thesis
    by (simp add: map_p_def optional_def streamingOptional_def null_to_empty_def)
qed

lemma agree_complete:
  assumes "\<And>n. agree (S input n) (I input n)"
  shows "agree (complete S input offs) (streamingComplete I input offs)"
  using assms [of offs]
proof (cases rule: agreeE)
  case none
  then show ?thesis by (simp add: complete_def then_p_def streamingComplete_def)
next
  case (fail off e f ys)
  then show ?thesis by (simp add: complete_def then_p_def streamingComplete_def)
next
  case (succ off ys v')
  then show ?thesis
    by (simp add: complete_def then_p_def streamingComplete_def end_p_def first_def)
qed

lemma agree_filterUndefined:
  assumes "\<And>n. agree (S input n) (I input n)"
  shows "agree (filterUndefined S input offs) (streamingFilterUndefined I input offs)"
  using assms [of offs]
proof (cases rule: agreeE)
  case none
  then show ?thesis by (simp add: filterUndefined_def streamingFilterUndefined_def)
next
  case (fail off e f ys)
  then show ?thesis by (simp add: filterUndefined_def streamingFilterUndefined_def)
next
  case (succ off ys v')
  then show ?thesis by (simp add: filterUndefined_def streamingFilterUndefined_def)
qed

lemma star_to_streaming:
  assumes ag: "\<And>n. agree (S input n) (I input n)"
      and run: "star_loop S input ts n = Some r"
  shows "case r of
           Success off v \<Rightarrow>
             streamingStar_loop I input (concat (map spread ts)) n
               = Some (concat (map spread (spread v)), ok off)
         | Failure off e f \<Rightarrow>
             (\<exists>ys'. streamingStar_loop I input (concat (map spread ts)) n
               = Some (ys', Failure off e f))"
proof -
  let ?Q = "\<lambda>ts n r. case r of
           Success off v \<Rightarrow>
             streamingStar_loop I input (concat (map spread ts)) n
               = Some (concat (map spread (spread v)), ok off)
         | Failure off e f \<Rightarrow>
             (\<exists>ys'. streamingStar_loop I input (concat (map spread ts)) n
               = Some (ys', Failure off e f))"
  have "S = S \<longrightarrow> input = input \<longrightarrow> ?Q ts n r"
  proof (rule star_loop.raw_induct [where P = "\<lambda>p i t m r. p = S \<longrightarrow> i = input \<longrightarrow> ?Q t m r", OF _ run],
      goal_cases)
    case (1 loop parser inp ts nextOffset y)
    show ?case
    proof (intro impI)
      assume eq: "parser = S" "inp = input"
      from ag [of nextOffset] show "?Q ts nextOffset y"
      proof (cases rule: agreeE)
        case none
        with 1(2) eq show ?thesis by simp
      next
        case (fail off e f ys)
        show ?thesis
        proof (cases f)
          case True
          with 1(2) eq fail have y: "y = Failure off e True" by simp
          have "streamingStar_loop I input (concat (map spread ts)) nextOffset
                  = Some (concat (map spread ts), Failure off e True)"
            using fail True by (subst streamingStar_loop.simps) simp
          with y show ?thesis by auto
        next
          case False
          with 1(2) eq fail have y: "y = Success nextOffset (Arr ts)" by simp
          have "streamingStar_loop I input (concat (map spread ts)) nextOffset
                  = Some (concat (map spread ts), ok nextOffset)"
            using fail False by (subst streamingStar_loop.simps) simp
          with y show ?thesis by (simp add: spread_def)
        qed
      next
        case (succ off ys v')
        show ?thesis
        proof (cases "off = nextOffset")
          case True
          with 1(2) eq succ have y: "y = Success nextOffset (Arr (ts @ [Arr ys]))" by simp
          have "streamingStar_loop I input (concat (map spread ts)) nextOffset
                  = Some (concat (map spread ts) @ ys, ok nextOffset)"
            using succ True by (subst streamingStar_loop.simps) simp
          with y show ?thesis by (simp add: spread_def)
        next
          case False
          with 1(2) eq succ have "loop S input (ts @ [Arr ys]) off = Some y" by simp
          from 1(1) [OF this] have Q: "?Q (ts @ [Arr ys]) off y" by simp
          have "streamingStar_loop I input (concat (map spread ts)) nextOffset
                  = streamingStar_loop I input (concat (map spread (ts @ [Arr ys]))) off"
            using succ False by (subst streamingStar_loop.simps) (auto simp: spread_def)
          with Q show ?thesis by (cases y) simp_all
        qed
      qed
    qed
  qed
  then show ?thesis by simp
qed

lemma streaming_to_star:
  assumes ag: "\<And>n. agree (S input n) (I input n)"
      and run: "streamingStar_loop I input ys n = Some y"
  shows "\<exists>r. star_loop S input ts n = Some r"
proof -
  let ?Q = "\<lambda>n. \<forall>ts. \<exists>r. star_loop S input ts n = Some r"
  have "I = I \<longrightarrow> input = input \<longrightarrow> ?Q n"
  proof (rule streamingStar_loop.raw_induct
      [where P = "\<lambda>p i t m r. p = I \<longrightarrow> i = input \<longrightarrow> ?Q m", OF _ run], goal_cases)
    case (1 loop parser inp yielded offs y)
    show ?case
    proof (intro impI allI)
      fix ts
      assume eq: "parser = I" "inp = input"
      from ag [of offs] show "\<exists>r. star_loop S input ts offs = Some r"
      proof (cases rule: agreeE)
        case none
        with 1(2) eq show ?thesis by simp
      next
        case (fail off e f ys)
        then show ?thesis by (subst star_loop.simps) simp
      next
        case (succ off ys v')
        show ?thesis
        proof (cases "off = offs")
          case True
          with succ show ?thesis by (subst star_loop.simps) simp
        next
          case False
          with 1(2) eq succ have "loop I input (yielded @ ys) off = Some y" by auto
          from 1(1) [OF this] have "?Q off" by simp
          then obtain r where "star_loop S input (ts @ [Arr ys]) off = Some r" by blast
          with False succ show ?thesis by (subst star_loop.simps) simp
        qed
      qed
    qed
  qed
  then show ?thesis by simp
qed

lemma agree_star:
  assumes ag: "\<And>n. agree (S input n) (I input n)"
  shows "agree (map_p (star S) flat input offs) (streamingStar I input offs)"
proof (cases "star_loop S input [] offs")
  case None
  have "streamingStar_loop I input [] offs = None"
  proof (cases "streamingStar_loop I input [] offs")
    case (Some y)
    from streaming_to_star [where S = S and I = I and input = input and ts = "[]", OF ag Some] None
    show ?thesis by simp
  qed simp
  with None show ?thesis by (simp add: map_p_def star_def streamingStar_def)
next
  case (Some r)
  from star_to_streaming [where S = S and I = I and input = input, OF ag Some] Some show ?thesis
    by (cases r) (auto simp: map_p_def star_def streamingStar_def flat_def)
qed

text \<open>
  C4, amended. For every grammar built purely from the streaming operators over
  underlying parsers, every input and every offset, the streaming form and the
  synchronous form built from the mirrored combinators agree: neither returns, or both
  fail with the same failure (offset, expected, fatal), or both succeed at the same offset
  and the items the streaming form yielded, in order, are the value of the synchronous
  form, where the synchronous form carries item arrays (\<open>synchronous\<close>: a value \<open>v\<close> of
  an underlying parser as \<^verbatim>\<open>[v]\<close>, \<open>then\<close> joining by concatenation, the array of
  \<open>star\<close> flattened one level, the \<^verbatim>\<open>null\<close> of \<open>optional\<close> as \<^verbatim>\<open>[]\<close>).
\<close>

theorem streaming_agrees_with_synchronous:
  "agree (synchronous g input offs) (incremental g input offs)"
proof (induction g arbitrary: offs)
  case (Streaming p)
  show ?case by (simp add: agree_streaming)
next
  case (StreamingThen g h)
  then show ?case by (simp add: agree_then)
next
  case (StreamingStar g)
  then show ?case by (simp add: agree_star)
next
  case (StreamingOptional g)
  then show ?case by (simp add: agree_optional)
next
  case (StreamingComplete g)
  then show ?case by (simp add: agree_complete)
next
  case (StreamingFilterUndefined g)
  then show ?case by (simp add: agree_filterUndefined)
qed

lemma a_then_maybe_b_evals:
  "a_then_maybe_b (js ''a'') 0 = Some (Success 0 Null)"
  "a_then_maybe_b (js ''c'') 0 = Some (Failure 0 [js ''a''] False)"
  by (simp_all add: a_then_maybe_b_def peek_def preceded_def then_p_def optional_def token_def
        slice_def js_def second_def)

text \<open>
  C4 as stated compares the items with a flattening of the value that the plain
  synchronous combinators return. No function of that value gives the items: on the inputs
  \<open>"a"\<close> and \<open>"c"\<close>, \<open>optional(p)\<close> returns the same result (success at offset 0, value
  \<^verbatim>\<open>null\<close>), once because \<open>p\<close> matched with the value \<^verbatim>\<open>null\<close> and once because \<open>p\<close>
  failed, while \<open>streamingOptional(streaming(p))\<close> yields \<^verbatim>\<open>[null]\<close> on the first and
  nothing on the second.
\<close>

theorem optional_null_counterexample:
  "optional a_then_maybe_b (js ''a'') 0 = Some (Success 0 Null) \<and>
   optional a_then_maybe_b (js ''c'') 0 = Some (Success 0 Null) \<and>
   streamingOptional (streaming a_then_maybe_b) (js ''a'') 0 = Some ([Null], Success 0 Null) \<and>
   streamingOptional (streaming a_then_maybe_b) (js ''c'') 0 = Some ([], Success 0 Undefined)"
  by (simp add: optional_def streamingOptional_def streaming_def a_then_maybe_b_evals)

lemma ab_star_incremental:
  "incremental ab_star (js ''ababa'') 0
     = Some ([Str (js ''a''), Str (js ''b''), Str (js ''a''), Str (js ''b'')], Success 4 Undefined)"
  by code_simp

text \<open>
  The theorem at \<^verbatim>\<open>streamingStar(streamingThen(streaming(token('a')), streaming(token('b'))))\<close>
  on \<open>"ababa"\<close>: both forms stop at offset 4 with the items \<open>a, b, a, b\<close>.
\<close>

theorem streaming_agrees_with_synchronous_witness:
  "incremental ab_star (js ''ababa'') 0
     = Some ([Str (js ''a''), Str (js ''b''), Str (js ''a''), Str (js ''b'')], Success 4 Undefined) \<and>
   synchronous ab_star (js ''ababa'') 0
     = Some (Success 4 (Arr [Str (js ''a''), Str (js ''b''), Str (js ''a''), Str (js ''b'')]))"
proof -
  from streaming_agrees_with_synchronous [of ab_star "js ''ababa''" 0]
  have "agree (synchronous ab_star (js ''ababa'') 0)
          (Some ([Str (js ''a''), Str (js ''b''), Str (js ''a''), Str (js ''b'')], Success 4 Undefined))"
    by (simp only: ab_star_incremental)
  then have "synchronous ab_star (js ''ababa'') 0
     = Some (Success 4 (Arr [Str (js ''a''), Str (js ''b''), Str (js ''a''), Str (js ''b'')]))"
    by (cases rule: agreeE) simp_all
  with ab_star_incremental show ?thesis by simp
qed

subsection \<open>The UTF-8 decoder\<close>

lemma lead_classes:
  "\<forall>x\<in>set [0..255::int].
     (x AND 0x80 = 0 \<longleftrightarrow> x < 0x80) \<and>
     (x AND 0xE0 = 0xC0 \<longleftrightarrow> 0xC0 \<le> x \<and> x < 0xE0) \<and>
     (x AND 0xF0 = 0xE0 \<longleftrightarrow> 0xE0 \<le> x \<and> x < 0xF0) \<and>
     (x AND 0xF8 = 0xF0 \<longleftrightarrow> 0xF0 \<le> x \<and> x < 0xF8)"
  by code_simp

lemma and_mask_mod: "(y::int) AND mask n = y mod 2 ^ n"
  by (simp add: take_bit_eq_mod flip: take_bit_eq_mask)

lemma low6: "(y::int) AND 0x3F = y mod 64"
  using and_mask_mod [of y 6] by (simp add: mask_eq_exp_minus_1)

lemma low5: "(y::int) AND 0x1F = y mod 32"
  using and_mask_mod [of y 5] by (simp add: mask_eq_exp_minus_1)

lemma low4: "(y::int) AND 0xF = y mod 16"
  using and_mask_mod [of y 4] by (simp add: mask_eq_exp_minus_1)

lemma push_bit_or_low:
  fixes a b :: int
  assumes "0 \<le> b" and "b < 2 ^ n"
  shows "push_bit n a OR b = a * 2 ^ n + b"
proof -
  from assms have "take_bit n b = b" by (simp add: take_bit_int_eq_self)
  then have "push_bit n a OR b = concat_bit n b a"
    by (simp add: concat_bit_def or.commute)
  also have "\<dots> = b + a * 2 ^ n"
    using \<open>take_bit n b = b\<close> by (simp add: concat_bit_eq push_bit_eq_mult)
  finally show ?thesis by simp
qed

lemma two_bytes: "push_bit 6 ((x::int) AND 0x1F) OR (y AND 0x3F) = (x mod 32) * 64 + y mod 64"
  using push_bit_or_low [of "y mod 64" 6 "x mod 32"] by (simp add: low5 low6 del: push_bit_and)

lemma three_bytes:
  "(push_bit 12 ((x::int) AND 0xF) OR push_bit 6 (y AND 0x3F)) OR (z AND 0x3F)
     = (x mod 16) * 4096 + ((y mod 64) * 64 + z mod 64)"
proof -
  have 1: "push_bit 6 (y mod 64) OR (z mod 64) = (y mod 64) * 64 + z mod 64"
    using push_bit_or_low [of "z mod 64" 6 "y mod 64"] by simp
  have b: "0 \<le> (y mod 64) * 64 + z mod 64" "(y mod 64) * 64 + z mod 64 < 2 ^ 12"
    using pos_mod_bound [of 64 y] pos_mod_sign [of 64 y] pos_mod_bound [of 64 z]
      pos_mod_sign [of 64 z] by simp_all
  have 2: "push_bit 12 (x mod 16) OR ((y mod 64) * 64 + z mod 64)
      = (x mod 16) * 4096 + ((y mod 64) * 64 + z mod 64)"
    using push_bit_or_low [OF b, of "x mod 16"] by simp
  show ?thesis
    by (simp only: low4 low6 1 2 or.assoc)
qed

lemma four_bytes:
  "((push_bit 18 ((x::int) AND 0xF) OR push_bit 12 (y AND 0x3F)) OR push_bit 6 (z AND 0x3F))
       OR (w AND 0x3F)
     = (x mod 16) * 262144 + ((y mod 64) * 4096 + ((z mod 64) * 64 + w mod 64))"
proof -
  have 1: "push_bit 6 (z mod 64) OR (w mod 64) = (z mod 64) * 64 + w mod 64"
    using push_bit_or_low [of "w mod 64" 6 "z mod 64"] by simp
  have b: "0 \<le> (z mod 64) * 64 + w mod 64" "(z mod 64) * 64 + w mod 64 < 2 ^ 12"
    using pos_mod_bound [of 64 z] pos_mod_sign [of 64 z] pos_mod_bound [of 64 w]
      pos_mod_sign [of 64 w] by simp_all
  have 2: "push_bit 12 (y mod 64) OR ((z mod 64) * 64 + w mod 64)
      = (y mod 64) * 4096 + ((z mod 64) * 64 + w mod 64)"
    using push_bit_or_low [OF b, of "y mod 64"] by simp
  have c: "0 \<le> (y mod 64) * 4096 + ((z mod 64) * 64 + w mod 64)"
      "(y mod 64) * 4096 + ((z mod 64) * 64 + w mod 64) < 2 ^ 18"
    using pos_mod_bound [of 64 y] pos_mod_sign [of 64 y] b by simp_all
  have 3: "push_bit 18 (x mod 16) OR ((y mod 64) * 4096 + ((z mod 64) * 64 + w mod 64))
      = (x mod 16) * 262144 + ((y mod 64) * 4096 + ((z mod 64) * 64 + w mod 64))"
    using push_bit_or_low [OF c, of "x mod 16"] by simp
  show ?thesis
    by (simp only: low4 low6 1 2 3 or.assoc)
qed

lemma byteAt_range: "byteAt input i = Some b \<Longrightarrow> b \<in> set [0..255]"
proof -
  assume "byteAt input i = Some b"
  then have "b = uint (input ! nat i)" by (auto simp: byteAt_def split: if_splits)
  moreover have "uint (input ! nat i) < 256" using uint_lt2p [of "input ! nat i"] by simp
  ultimately show ?thesis by simp
qed

lemma lead_class:
  assumes "byteAt input i = Some b"
  shows "(b AND 0x80 = 0 \<longleftrightarrow> b < 0x80) \<and>
     (b AND 0xE0 = 0xC0 \<longleftrightarrow> 0xC0 \<le> b \<and> b < 0xE0) \<and>
     (b AND 0xF0 = 0xE0 \<longleftrightarrow> 0xE0 \<le> b \<and> b < 0xF0) \<and>
     (b AND 0xF8 = 0xF0 \<longleftrightarrow> 0xF0 \<le> b \<and> b < 0xF8)"
  using lead_classes byteAt_range [OF assms] by blast

lemma decode_one:
  assumes "byteAt input offs = Some b0" and "b0 < 0x80"
  shows "getUtf8Codepoint input offs = Inr (Some b0)"
  using assms lead_class [OF assms(1)] by (simp add: getUtf8Codepoint_def)

lemma decode_two:
  assumes "byteAt input offs = Some b0" and "0xC0 \<le> b0" and "b0 < 0xE0"
  shows "getUtf8Codepoint input offs =
     (case byteAt input (offs + 1) of
        None \<Rightarrow> Inr None
      | Some b1 \<Rightarrow> Inr (Some ((b0 mod 32) * 64 + b1 mod 64)))"
  using assms lead_class [OF assms(1)]
  by (simp add: getUtf8Codepoint_def two_bytes split: option.splits del: push_bit_and)

lemma decode_three:
  assumes "byteAt input offs = Some b0" and "0xE0 \<le> b0" and "b0 < 0xF0"
  shows "getUtf8Codepoint input offs =
     (case (byteAt input (offs + 1), byteAt input (offs + 2)) of
        (Some b1, Some b2) \<Rightarrow> Inr (Some ((b0 mod 16) * 4096 + ((b1 mod 64) * 64 + b2 mod 64)))
      | _ \<Rightarrow> Inr None)"
  using assms lead_class [OF assms(1)]
  by (simp add: getUtf8Codepoint_def three_bytes split: option.splits del: push_bit_and)

lemma decode_four:
  assumes "byteAt input offs = Some b0" and "0xF0 \<le> b0" and "b0 < 0xF8"
  shows "getUtf8Codepoint input offs =
     (case (byteAt input (offs + 1), byteAt input (offs + 2), byteAt input (offs + 3)) of
        (Some b1, Some b2, Some b3) \<Rightarrow>
          Inr (Some ((b0 mod 16) * 262144 + ((b1 mod 64) * 4096 + ((b2 mod 64) * 64 + b3 mod 64))))
      | _ \<Rightarrow> Inr None)"
  using assms lead_class [OF assms(1)]
  by (simp add: getUtf8Codepoint_def four_bytes split: option.splits del: push_bit_and)

lemma decode_invalid:
  assumes "byteAt input offs = Some b0" and "0x80 \<le> b0 \<and> b0 < 0xC0 \<or> 0xF8 \<le> b0"
    and "byteAt input (offs + 1) = Some b1" and "byteAt input (offs + 2) = Some b2"
    and "byteAt input (offs + 3) = Some b3"
  shows "getUtf8Codepoint input offs = Inl (Error ''invalid utf-8 character'')"
  using assms lead_class [OF assms(1)]
  by (auto simp: getUtf8Codepoint_def)

lemma tokenUtf8_loop_missing:
  "walk input offs cps = Some mid \<Longrightarrow> getUtf8Codepoint input mid = Inr None
     \<Longrightarrow> tokenUtf8_loop (cps @ c # rest) input offs = Inr None"
proof (induction cps arbitrary: offs)
  case Nil
  then show ?case by simp
next
  case (Cons d ds)
  from Cons.prems have d: "getUtf8Codepoint input offs = Inr (Some d)"
    and w: "walk input (offs + getUtf8Length d) ds = Some mid"
    by (simp_all split: if_splits)
  from Cons.IH [OF w Cons.prems(2)] d show ?case by simp
qed

lemma skipCharsUtf8_loop_missing:
  "walk input offs cps = Some mid \<Longrightarrow> getUtf8Codepoint input mid = Inr None
     \<Longrightarrow> int (length cps) < n
     \<Longrightarrow> skipCharsUtf8_loop input offs n = Inr (Failure mid [js ''any character''] False)"
proof (induction cps arbitrary: offs n)
  case Nil
  then show ?case by (subst skipCharsUtf8_loop.simps) simp
next
  case (Cons d ds)
  from Cons.prems have d: "getUtf8Codepoint input offs = Inr (Some d)"
    and w: "walk input (offs + getUtf8Length d) ds = Some mid"
    by (simp_all split: if_splits)
  from Cons.prems(3) have n: "int (length ds) < n - 1" "0 < n" by simp_all
  from Cons.IH [OF w Cons.prems(2) n(1)] d n(2) show ?case
    by (subst skipCharsUtf8_loop.simps) simp
qed

lemma codepointsUtf8_loop_missing:
  "walk input offs cps = Some mid \<Longrightarrow> getUtf8Codepoint input mid = Inr None
     \<Longrightarrow> \<forall>c\<in>set cps. isMatch c
     \<Longrightarrow> codepointsUtf8_loop isMatch input offs = Some (Inr mid)"
proof (induction cps arbitrary: offs)
  case Nil
  then show ?case by (subst codepointsUtf8_loop.simps) simp
next
  case (Cons d ds)
  from Cons.prems have d: "getUtf8Codepoint input offs = Inr (Some d)"
    and w: "walk input (offs + getUtf8Length d) ds = Some mid"
    by (simp_all split: if_splits)
  from Cons.prems(3) have m: "isMatch d" "\<forall>c\<in>set ds. isMatch c" by simp_all
  from Cons.IH [OF w Cons.prems(2) m(2)] d m(1) show ?case
    by (subst codepointsUtf8_loop.simps) simp
qed

lemma no_code_point_in_run:
  assumes "walk input offs cps = Some mid" and "getUtf8Codepoint input mid = Inr None"
  shows "codePoints tok = cps @ c # rest
           \<Longrightarrow> tokenUtf8 tok input offs = Some (Inr (Failure offs [tok] False))"
    and "int (length cps) < n
           \<Longrightarrow> skipCharsUtf8 n input offs = Some (Inr (Failure mid [js ''any character''] False))"
    and "\<forall>c\<in>set cps. isMatch c
           \<Longrightarrow> codepointsUtf8 isMatch None input offs = Some (Inr (ok mid))"
    and "\<forall>c\<in>set cps. isMatch c
           \<Longrightarrow> codepointsUtf8 isMatch (Some expd) input offs
               = Some (Inr (if mid = offs then Failure offs expd False else ok mid))"
proof -
  show "tokenUtf8 tok input offs = Some (Inr (Failure offs [tok] False))"
    if "codePoints tok = cps @ c # rest"
    using that tokenUtf8_loop_missing [OF assms, of c rest] by (simp add: tokenUtf8_def)
  show "skipCharsUtf8 n input offs = Some (Inr (Failure mid [js ''any character''] False))"
    if "int (length cps) < n"
    using skipCharsUtf8_loop_missing [OF assms that] by (simp add: skipCharsUtf8_def)
  show "codepointsUtf8 isMatch None input offs = Some (Inr (ok mid))"
    if "\<forall>c\<in>set cps. isMatch c"
    using codepointsUtf8_loop_missing [OF assms that] by (simp add: codepointsUtf8_def)
  show "codepointsUtf8 isMatch (Some expd) input offs
               = Some (Inr (if mid = offs then Failure offs expd False else ok mid))"
    if "\<forall>c\<in>set cps. isMatch c"
    using codepointsUtf8_loop_missing [OF assms that] by (simp add: codepointsUtf8_def)
qed

lemma rangeUtf8_no_code_point:
  assumes "getUtf8Codepoint input offs = Inr None" and "rangeUtf8 a b expdo = Some rp"
  shows "\<exists>ex. rp input offs = Some (Inr (Failure offs ex False))"
  using assms by (auto simp: rangeUtf8_def codepointUtf8_def split: option.splits)

text \<open>
  C9 as stated fails on the validation of continuation bytes: the decoder never looks at
  the two leading bits of the bytes after the first. The bytes \<open>0xC3 0x41\<close> decode to
  the code point \<open>0xC1\<close>, though \<open>0x41\<close> does not have the form \<open>10xxxxxx\<close>.
\<close>

theorem continuation_not_validated_counterexample:
  "getUtf8Codepoint [0xC3, 0x41] 0 = Inr (Some 0xC1) \<and> (0x41::int) AND 0xC0 \<noteq> 0x80"
  by (simp add: getUtf8Codepoint_def byteAt_def)

text \<open>
  C9, amended. At an offset inside the input, the decoder reads one to four bytes as the
  leading byte \<open>b0\<close> says: \<open>0xxxxxxx\<close> is the code point itself; \<open>110xxxxx\<close>,
  \<open>1110xxxx\<close> and \<open>11110xxx\<close> take the low bits of \<open>b0\<close> and the low six bits of each
  of the one, two or three bytes that follow, whatever their two leading bits are; when a
  byte it needs lies beyond the end of the input, the result is "no code point". A leading
  byte of none of the four forms, with at least three bytes after it, throws. Where the
  decoder gives "no code point", the primitives fail non-fatally with their own
  expectation, as at a mismatch: \<open>codepointUtf8\<close> and \<open>rangeUtf8\<close> at the offset they
  were called at; \<open>dispatchUtf8\<close>, which decodes at \<open>offset + extraOffset\<close>, at the
  offset it was called at; \<open>tokenUtf8\<close> at the offset it was called at, whichever code
  point of the token is the one that is missing; \<open>skipCharsUtf8\<close> at the offset of the
  missing code point, behind the code points it has skipped; and \<open>codepointsUtf8\<close> ends
  its run at that offset, which it returns as a success, or, when an expected list was
  given and the run is empty, as a failure.
\<close>

theorem utf8_decoder:
  "(byteAt input offs = Some b0 \<longrightarrow>
      (b0 < 0x80 \<longrightarrow> getUtf8Codepoint input offs = Inr (Some b0)) \<and>
      (0xC0 \<le> b0 \<and> b0 < 0xE0 \<longrightarrow>
         getUtf8Codepoint input offs =
           (case byteAt input (offs + 1) of
              None \<Rightarrow> Inr None
            | Some b1 \<Rightarrow> Inr (Some ((b0 mod 32) * 64 + b1 mod 64)))) \<and>
      (0xE0 \<le> b0 \<and> b0 < 0xF0 \<longrightarrow>
         getUtf8Codepoint input offs =
           (case (byteAt input (offs + 1), byteAt input (offs + 2)) of
              (Some b1, Some b2) \<Rightarrow>
                Inr (Some ((b0 mod 16) * 4096 + ((b1 mod 64) * 64 + b2 mod 64)))
            | _ \<Rightarrow> Inr None)) \<and>
      (0xF0 \<le> b0 \<and> b0 < 0xF8 \<longrightarrow>
         getUtf8Codepoint input offs =
           (case (byteAt input (offs + 1), byteAt input (offs + 2), byteAt input (offs + 3)) of
              (Some b1, Some b2, Some b3) \<Rightarrow>
                Inr (Some ((b0 mod 16) * 262144 +
                           ((b1 mod 64) * 4096 + ((b2 mod 64) * 64 + b3 mod 64))))
            | _ \<Rightarrow> Inr None)) \<and>
      ((0x80 \<le> b0 \<and> b0 < 0xC0 \<or> 0xF8 \<le> b0) \<longrightarrow>
         byteAt input (offs + 1) \<noteq> None \<longrightarrow> byteAt input (offs + 2) \<noteq> None \<longrightarrow>
         byteAt input (offs + 3) \<noteq> None \<longrightarrow>
         getUtf8Codepoint input offs = Inl (Error ''invalid utf-8 character''))) \<and>
   (getUtf8Codepoint input offs = Inr None \<longrightarrow>
      codepointUtf8 isMatch expd input offs = Some (Inr (Failure offs expd False)) \<and>
      (rangeUtf8 firstCodePoint lastCodePoint expdo = Some rp \<longrightarrow>
         (\<exists>ex. rp input offs = Some (Inr (Failure offs ex False))))) \<and>
   (getUtf8Codepoint input (offs + extraOffset) = Inr None \<longrightarrow>
      dispatchUtf8 mapping otherwise extraOffset expd input offs
        = Some (Inr (Failure offs expd False))) \<and>
   (walk input offs cps = Some mid \<and> getUtf8Codepoint input mid = Inr None \<longrightarrow>
      (codePoints tok = cps @ c # rest \<longrightarrow>
         tokenUtf8 tok input offs = Some (Inr (Failure offs [tok] False))) \<and>
      (int (length cps) < n \<longrightarrow>
         skipCharsUtf8 n input offs = Some (Inr (Failure mid [js ''any character''] False))) \<and>
      ((\<forall>c\<in>set cps. isMatch c) \<longrightarrow>
         codepointsUtf8 isMatch None input offs = Some (Inr (ok mid)) \<and>
         codepointsUtf8 isMatch (Some expd) input offs
           = Some (Inr (if mid = offs then Failure offs expd False else ok mid))))"
proof (intro conjI impI; (elim conjE)?)
  assume b: "byteAt input offs = Some b0"
  {
    assume "b0 < 0x80"
    with b show "getUtf8Codepoint input offs = Inr (Some b0)" by (rule decode_one)
  next
    assume "0xC0 \<le> b0" "b0 < 0xE0"
    with b show "getUtf8Codepoint input offs =
           (case byteAt input (offs + 1) of
              None \<Rightarrow> Inr None
            | Some b1 \<Rightarrow> Inr (Some ((b0 mod 32) * 64 + b1 mod 64)))"
      by (intro decode_two) simp_all
  next
    assume "0xE0 \<le> b0" "b0 < 0xF0"
    with b show "getUtf8Codepoint input offs =
           (case (byteAt input (offs + 1), byteAt input (offs + 2)) of
              (Some b1, Some b2) \<Rightarrow>
                Inr (Some ((b0 mod 16) * 4096 + ((b1 mod 64) * 64 + b2 mod 64)))
            | _ \<Rightarrow> Inr None)"
      by (intro decode_three) simp_all
  next
    assume "0xF0 \<le> b0" "b0 < 0xF8"
    with b show "getUtf8Codepoint input offs =
           (case (byteAt input (offs + 1), byteAt input (offs + 2), byteAt input (offs + 3)) of
              (Some b1, Some b2, Some b3) \<Rightarrow>
                Inr (Some ((b0 mod 16) * 262144 +
                           ((b1 mod 64) * 4096 + ((b2 mod 64) * 64 + b3 mod 64))))
            | _ \<Rightarrow> Inr None)"
      by (intro decode_four) simp_all
  next
    assume "0x80 \<le> b0 \<and> b0 < 0xC0 \<or> 0xF8 \<le> b0"
      and "byteAt input (offs + 1) \<noteq> None" and "byteAt input (offs + 2) \<noteq> None"
      and "byteAt input (offs + 3) \<noteq> None"
    with b show "getUtf8Codepoint input offs = Inl (Error ''invalid utf-8 character'')"
      by (auto intro: decode_invalid)
  }
next
  assume none: "getUtf8Codepoint input offs = Inr None"
  then show "codepointUtf8 isMatch expd input offs = Some (Inr (Failure offs expd False))"
    by (simp add: codepointUtf8_def)
  {
    assume "rangeUtf8 firstCodePoint lastCodePoint expdo = Some rp"
    with none show "\<exists>ex. rp input offs = Some (Inr (Failure offs ex False))"
      by (rule rangeUtf8_no_code_point)
  }
next
  assume "getUtf8Codepoint input (offs + extraOffset) = Inr None"
  then show "dispatchUtf8 mapping otherwise extraOffset expd input offs
        = Some (Inr (Failure offs expd False))"
    by (simp add: dispatchUtf8_def)
next
  assume w: "walk input offs cps = Some mid" and none: "getUtf8Codepoint input mid = Inr None"
  {
    assume "codePoints tok = cps @ c # rest"
    then show "tokenUtf8 tok input offs = Some (Inr (Failure offs [tok] False))"
      by (rule no_code_point_in_run [OF w none])
  next
    assume "int (length cps) < n"
    then show "skipCharsUtf8 n input offs = Some (Inr (Failure mid [js ''any character''] False))"
      by (rule no_code_point_in_run [OF w none])
  next
    assume m: "\<forall>c\<in>set cps. isMatch c"
    then show "codepointsUtf8 isMatch None input offs = Some (Inr (ok mid))"
      by (rule no_code_point_in_run [OF w none])
    from m show "codepointsUtf8 isMatch (Some expd) input offs
           = Some (Inr (if mid = offs then Failure offs expd False else ok mid))"
      by (rule no_code_point_in_run [OF w none])
  }
qed

text \<open>
  The theorem at \<open>"A"\<close>, at the encodings of U+00E9, U+20AC and U+1F4A9, at the byte
  \<open>0xFF\<close> with three bytes after it, and at the three bytes \<open>0x61 0xE2 0x82\<close>, an
  \<open>"a"\<close> and a three-byte sequence cut short after its second byte: there is no code
  point at offset 1, where \<open>codepointUtf8\<close>, \<open>rangeUtf8\<close> and \<open>dispatchUtf8\<close> (called
  at offset 0 to look one byte ahead) fail; \<open>tokenUtf8("ab")\<close> fails at offset 0,
  \<open>skipCharsUtf8(2)\<close> at offset 1, behind the \<open>"a"\<close>, and \<open>codepointsUtf8\<close> ends
  its run at offset 1.
\<close>

theorem utf8_decoder_witness:
  "getUtf8Codepoint [0x41] 0 = Inr (Some 0x41) \<and>
   getUtf8Codepoint [0xC3, 0xA9] 0 = Inr (Some 0xE9) \<and>
   getUtf8Codepoint [0xE2, 0x82, 0xAC] 0 = Inr (Some 0x20AC) \<and>
   getUtf8Codepoint [0xF0, 0x9F, 0x92, 0xA9] 0 = Inr (Some 0x1F4A9) \<and>
   getUtf8Codepoint [0xFF, 0x80, 0x80, 0x80] 0 = Inl (Error ''invalid utf-8 character'') \<and>
   getUtf8Codepoint [0x61, 0xE2, 0x82] 1 = Inr None \<and>
   walk [0x61, 0xE2, 0x82] 0 [0x61] = Some 1 \<and>
   codepointUtf8 any_codepoint [js ''x''] [0x61, 0xE2, 0x82] 1
     = Some (Inr (Failure 1 [js ''x''] False)) \<and>
   (\<exists>rp ex. rangeUtf8 0 0x10FFFF (Some [js ''x'']) = Some rp \<and>
      rp [0x61, 0xE2, 0x82] 1 = Some (Inr (Failure 1 ex False))) \<and>
   dispatchUtf8 (\<lambda>cp. None) None 1 [js ''x''] [0x61, 0xE2, 0x82] 0
     = Some (Inr (Failure 0 [js ''x''] False)) \<and>
   tokenUtf8 (js ''ab'') [0x61, 0xE2, 0x82] 0 = Some (Inr (Failure 0 [js ''ab''] False)) \<and>
   skipCharsUtf8 2 [0x61, 0xE2, 0x82] 0 = Some (Inr (Failure 1 [js ''any character''] False)) \<and>
   codepointsUtf8 any_codepoint None [0x61, 0xE2, 0x82] 0 = Some (Inr (ok 1)) \<and>
   codepointsUtf8 any_codepoint (Some [js ''x'']) [0x61, 0xE2, 0x82] 0 = Some (Inr (ok 1))"
proof -
  have b: "byteAt [0x41] 0 = Some 0x41" "byteAt [0xC3, 0xA9] 0 = Some 0xC3"
    "byteAt [0xC3, 0xA9] (0 + 1) = Some 0xA9"
    "byteAt [0xE2, 0x82, 0xAC] 0 = Some 0xE2" "byteAt [0xE2, 0x82, 0xAC] (0 + 1) = Some 0x82"
    "byteAt [0xE2, 0x82, 0xAC] (0 + 2) = Some 0xAC"
    "byteAt [0xF0, 0x9F, 0x92, 0xA9] 0 = Some 0xF0" "byteAt [0xF0, 0x9F, 0x92, 0xA9] (0 + 1) = Some 0x9F"
    "byteAt [0xF0, 0x9F, 0x92, 0xA9] (0 + 2) = Some 0x92"
    "byteAt [0xF0, 0x9F, 0x92, 0xA9] (0 + 3) = Some 0xA9"
    "byteAt [0xFF, 0x80, 0x80, 0x80] 0 = Some 0xFF" "byteAt [0xFF, 0x80, 0x80, 0x80] (0 + 1) = Some 0x80"
    "byteAt [0xFF, 0x80, 0x80, 0x80] (0 + 2) = Some 0x80"
    "byteAt [0xFF, 0x80, 0x80, 0x80] (0 + 3) = Some 0x80"
    "byteAt [0x61, 0xE2, 0x82] 0 = Some 0x61"
    "byteAt [0x61, 0xE2, 0x82] 1 = Some 0xE2" "byteAt [0x61, 0xE2, 0x82] (1 + 1) = Some 0x82"
    "byteAt [0x61, 0xE2, 0x82] (1 + 2) = None"
    by (simp_all add: byteAt_def)
  from utf8_decoder [where input = "[0x41]" and offs = 0 and ?b0.0 = "0x41"] b
  have 1: "getUtf8Codepoint [0x41] 0 = Inr (Some 0x41)" by simp
  from utf8_decoder [where input = "[0xC3, 0xA9]" and offs = 0 and ?b0.0 = "0xC3"] b
  have 2: "getUtf8Codepoint [0xC3, 0xA9] 0 = Inr (Some 0xE9)" by simp
  from utf8_decoder [where input = "[0xE2, 0x82, 0xAC]" and offs = 0 and ?b0.0 = "0xE2"] b
  have 3: "getUtf8Codepoint [0xE2, 0x82, 0xAC] 0 = Inr (Some 0x20AC)" by simp
  from utf8_decoder [where input = "[0xF0, 0x9F, 0x92, 0xA9]" and offs = 0 and ?b0.0 = "0xF0"] b
  have 4: "getUtf8Codepoint [0xF0, 0x9F, 0x92, 0xA9] 0 = Inr (Some 0x1F4A9)" by simp
  from utf8_decoder [where input = "[0xFF, 0x80, 0x80, 0x80]" and offs = 0 and ?b0.0 = "0xFF"] b
  have 5: "getUtf8Codepoint [0xFF, 0x80, 0x80, 0x80] 0 = Inl (Error ''invalid utf-8 character'')"
    by simp
  from utf8_decoder [where input = "[0x61, 0xE2, 0x82]" and offs = 0 and ?b0.0 = "0x61"] b
  have a: "getUtf8Codepoint [0x61, 0xE2, 0x82] 0 = Inr (Some 0x61)" by simp
  note short = utf8_decoder [where input = "[0x61, 0xE2, 0x82]" and offs = 1 and ?b0.0 = "0xE2"
      and isMatch = any_codepoint and expd = "[js ''x'']" and firstCodePoint = 0
      and lastCodePoint = "0x10FFFF" and expdo = "Some [js ''x'']"
      and rp = "codepointUtf8 (\<lambda>cp. 0 \<le> cp \<and> cp \<le> 0x10FFFF) [js ''x'']"]
  from short b have 6: "getUtf8Codepoint [0x61, 0xE2, 0x82] 1 = Inr None" by simp
  have w: "walk [0x61, 0xE2, 0x82] 0 [0x61] = Some 1"
    by (simp add: a getUtf8Length_def)
  have r: "rangeUtf8 0 0x10FFFF (Some [js ''x''])
      = Some (codepointUtf8 (\<lambda>cp. 0 \<le> cp \<and> cp \<le> 0x10FFFF) [js ''x''])"
    by (simp add: rangeUtf8_def)
  from short 6 r
  have 7: "codepointUtf8 any_codepoint [js ''x''] [0x61, 0xE2, 0x82] 1
             = Some (Inr (Failure 1 [js ''x''] False))"
    and 8: "\<exists>ex. codepointUtf8 (\<lambda>cp. 0 \<le> cp \<and> cp \<le> 0x10FFFF) [js ''x''] [0x61, 0xE2, 0x82] 1
             = Some (Inr (Failure 1 ex False))"
    by simp_all
  note run = utf8_decoder [where input = "[0x61, 0xE2, 0x82]" and offs = 0 and extraOffset = 1
      and cps = "[0x61]" and mid = 1 and tok = "js ''ab''" and c = "0x62" and rest = "[]"
      and n = 2 and isMatch = any_codepoint and expd = "[js ''x'']"
      and mapping = "\<lambda>cp. None" and otherwise = None]
  have t: "codePoints (js ''ab'') = [0x61] @ 0x62 # []" by (simp add: js_def)
  have m: "\<forall>c\<in>set [0x61]. any_codepoint c" by (simp add: any_codepoint_def)
  have 61: "getUtf8Codepoint [0x61, 0xE2, 0x82] (0 + 1) = Inr None" using 6 by simp
  from run w 6 61 t m
  have 9: "dispatchUtf8 (\<lambda>cp. None) None 1 [js ''x''] [0x61, 0xE2, 0x82] 0
             = Some (Inr (Failure 0 [js ''x''] False))"
    and 10: "tokenUtf8 (js ''ab'') [0x61, 0xE2, 0x82] 0 = Some (Inr (Failure 0 [js ''ab''] False))"
    and 11: "skipCharsUtf8 2 [0x61, 0xE2, 0x82] 0
             = Some (Inr (Failure 1 [js ''any character''] False))"
    and 12: "codepointsUtf8 any_codepoint None [0x61, 0xE2, 0x82] 0 = Some (Inr (ok 1))"
    and 13: "codepointsUtf8 any_codepoint (Some [js ''x'']) [0x61, 0xE2, 0x82] 0 = Some (Inr (ok 1))"
    by simp_all
  from r 8 have 14: "\<exists>rp ex. rangeUtf8 0 0x10FFFF (Some [js ''x'']) = Some rp \<and>
      rp [0x61, 0xE2, 0x82] 1 = Some (Inr (Failure 1 ex False))" by simp
  from 1 2 3 4 5 6 w 7 14 9 10 11 12 13 show ?thesis by simp
qed

end
